theory Spec2Isabelle
  imports Main "HOL-Library.Word"
begin

unbundle bit_operations_syntax

section \<open>The TimeBankFHE contract\<close>

text \<open>
  A shallow embedding of the Solidity contract \<open>TimeBankFHE\<close> (the second document of
  \<open>frontend/web/src/App.tsx\<close>). Storage is a record, a Solidity \<open>mapping\<close> is a total
  function (absent keys read as the zero value), \<open>revert\<close> is the left summand of the
  result, and the event log is a list that \<open>emit\<close> appends to.
\<close>

subsection \<open>Value types\<close>

type_synonym address = "160 word"
type_synonym uint256 = "256 word"
type_synonym uint32 = "32 word"
type_synonym bytes32 = "256 word"
type_synonym bytes = "8 word list"

text \<open>
  \<open>euint32\<close> is a user-defined value type over \<open>bytes32\<close>: an opaque ciphertext handle.
  A local declared without initialiser holds the zero handle.
\<close>

type_synonym euint32 = "256 word"

record DecryptionContext =
  batchId :: uint256
  stateHash :: bytes32
  processed :: bool

datatype event =
    OwnershipTransferred address address
  | ProviderAdded address
  | ProviderRemoved address
  | Paused address
  | Unpaused address
  | CooldownSecondsSet uint256 uint256
  | BatchOpened uint256
  | BatchClosed uint256
  | TimeDeposited address uint256 euint32
  | TimeWithdrawn address uint256 euint32
  | DecryptionRequested uint256 uint256
  | DecryptionCompleted uint256 uint256 uint32 uint32

text \<open>
  The custom errors of the contract, the string revert of \<open>requestBatchSummary\<close>
  (\<open>BatchNotClosed\<close>), the panic of checked \<open>uint256\<close> arithmetic (\<open>Panic\<close>), and the
  revert of \<open>FHE.checkSignatures\<close> on a proof that does not verify (\<open>InvalidProof\<close>).
\<close>

datatype error =
    NotOwner
  | NotProvider
  | PausedError
  | CooldownActive
  | BatchClosedError
  | ReplayError
  | StateMismatchError
  | InvalidDecryption
  | BatchNotClosed
  | Panic
  | InvalidProof

record state =
  owner :: address
  isProvider :: "address \<Rightarrow> bool"
  paused :: bool
  cooldownSeconds :: uint256
  lastSubmissionTime :: "address \<Rightarrow> uint256"
  lastDecryptionRequestTime :: "address \<Rightarrow> uint256"
  currentBatchId :: uint256
  isBatchClosed :: "uint256 \<Rightarrow> bool"
  decryptionContexts :: "uint256 \<Rightarrow> DecryptionContext"
  events :: "event list"

text \<open>The transaction context a call reads: \<open>msg.sender\<close> and \<open>block.timestamp\<close>.\<close>

record env =
  msg_sender :: address
  block_timestamp :: uint256

text \<open>
  The FHE library (\<open>@fhevm/solidity/lib/FHE.sol\<close>), \<open>keccak256(abi.encode(_, _))\<close> and the
  address the contract is deployed at are not part of the repository. They are
  parameters of the model: every theorem below holds for any choice of them. A
  library call is taken to return a value that depends on its arguments only;
  \<open>keccak256_encode cts a\<close> stands for \<open>keccak256(abi.encode(cts, a))\<close>;
  \<open>checkSignatures\<close> tells whether \<open>FHE.checkSignatures\<close> returns rather than reverts.
\<close>

record host =
  asEuint32 :: "uint32 \<Rightarrow> euint32"
  fhe_add :: "euint32 \<Rightarrow> euint32 \<Rightarrow> euint32"
  isInitialized :: "euint32 \<Rightarrow> bool"
  toBytes32 :: "euint32 \<Rightarrow> bytes32"
  checkSignatures :: "uint256 \<Rightarrow> bytes \<Rightarrow> bytes \<Rightarrow> bool"
  keccak256_encode :: "bytes32 list \<Rightarrow> address \<Rightarrow> bytes32"
  this :: address

subsection \<open>Helpers\<close>

definition emit :: "event \<Rightarrow> state \<Rightarrow> state" where
  "emit ev s = s\<lparr>events := events s @ [ev]\<rparr>"

text \<open>Solidity 0.8 addition on \<open>uint256\<close>: overflow reverts with a panic.\<close>

definition checked_add :: "uint256 \<Rightarrow> uint256 \<Rightarrow> uint256 option" where
  "checked_add a b = (if unat a + unat b < 2 ^ 256 then Some (a + b) else None)"

subsection \<open>Modifiers\<close>

definition onlyOwner :: "env \<Rightarrow> state \<Rightarrow> error + unit" where
  "onlyOwner e s = (if msg_sender e \<noteq> owner s then Inl NotOwner else Inr ())"

definition onlyProvider :: "env \<Rightarrow> state \<Rightarrow> error + unit" where
  "onlyProvider e s = (if \<not> isProvider s (msg_sender e) then Inl NotProvider else Inr ())"

definition whenNotPaused :: "state \<Rightarrow> error + unit" where
  "whenNotPaused s = (if paused s then Inl PausedError else Inr ())"

definition checkCooldown ::
  "env \<Rightarrow> state \<Rightarrow> address \<Rightarrow> (address \<Rightarrow> uint256) \<Rightarrow> error + unit" where
  "checkCooldown e s account lastTimeMap =
     (case checked_add (lastTimeMap account) (cooldownSeconds s) of
        None \<Rightarrow> Inl Panic
      | Some t \<Rightarrow> if block_timestamp e < t then Inl CooldownActive else Inr ())"

subsection \<open>Constructor and administrative functions\<close>

definition constructor :: "env \<Rightarrow> state" where
  "constructor e =
     \<lparr> owner = msg_sender e,
       isProvider = (\<lambda>_. False)(msg_sender e := True),
       paused = False,
       cooldownSeconds = 60,
       lastSubmissionTime = (\<lambda>_. 0),
       lastDecryptionRequestTime = (\<lambda>_. 0),
       currentBatchId = 1,
       isBatchClosed = (\<lambda>_. False),
       decryptionContexts = (\<lambda>_. \<lparr> batchId = 0, stateHash = 0, processed = False \<rparr>),
       events = [ProviderAdded (msg_sender e), BatchOpened 1] \<rparr>"

definition transferOwnership :: "env \<Rightarrow> state \<Rightarrow> address \<Rightarrow> error + state" where
  "transferOwnership e s newOwner =
     (case onlyOwner e s of Inl x \<Rightarrow> Inl x | Inr _ \<Rightarrow>
        let previousOwner = owner s;
            s1 = s\<lparr>owner := newOwner\<rparr>
        in Inr (emit (OwnershipTransferred previousOwner newOwner) s1))"

definition addProvider :: "env \<Rightarrow> state \<Rightarrow> address \<Rightarrow> error + state" where
  "addProvider e s provider =
     (case onlyOwner e s of Inl x \<Rightarrow> Inl x | Inr _ \<Rightarrow>
        if \<not> isProvider s provider
        then Inr (emit (ProviderAdded provider)
                    (s\<lparr>isProvider := (isProvider s)(provider := True)\<rparr>))
        else Inr s)"

definition removeProvider :: "env \<Rightarrow> state \<Rightarrow> address \<Rightarrow> error + state" where
  "removeProvider e s provider =
     (case onlyOwner e s of Inl x \<Rightarrow> Inl x | Inr _ \<Rightarrow>
        if isProvider s provider
        then Inr (emit (ProviderRemoved provider)
                    (s\<lparr>isProvider := (isProvider s)(provider := False)\<rparr>))
        else Inr s)"

definition pause :: "env \<Rightarrow> state \<Rightarrow> error + state" where
  "pause e s =
     (case onlyOwner e s of Inl x \<Rightarrow> Inl x | Inr _ \<Rightarrow>
      case whenNotPaused s of Inl x \<Rightarrow> Inl x | Inr _ \<Rightarrow>
        Inr (emit (Paused (msg_sender e)) (s\<lparr>paused := True\<rparr>)))"

definition unpause :: "env \<Rightarrow> state \<Rightarrow> error + state" where
  "unpause e s =
     (case onlyOwner e s of Inl x \<Rightarrow> Inl x | Inr _ \<Rightarrow>
        Inr (emit (Unpaused (msg_sender e)) (s\<lparr>paused := False\<rparr>)))"

definition setCooldownSeconds :: "env \<Rightarrow> state \<Rightarrow> uint256 \<Rightarrow> error + state" where
  "setCooldownSeconds e s newCooldownSeconds =
     (case onlyOwner e s of Inl x \<Rightarrow> Inl x | Inr _ \<Rightarrow>
        let oldCooldownSeconds = cooldownSeconds s;
            s1 = s\<lparr>cooldownSeconds := newCooldownSeconds\<rparr>
        in Inr (emit (CooldownSecondsSet oldCooldownSeconds newCooldownSeconds) s1))"

text \<open>\<open>currentBatchId++\<close> is checked arithmetic.\<close>

definition openNewBatch :: "env \<Rightarrow> state \<Rightarrow> error + state" where
  "openNewBatch e s =
     (case onlyOwner e s of Inl x \<Rightarrow> Inl x | Inr _ \<Rightarrow>
      case checked_add (currentBatchId s) 1 of None \<Rightarrow> Inl Panic | Some n \<Rightarrow>
        let s1 = s\<lparr>currentBatchId := n\<rparr>
        in Inr (emit (BatchOpened (currentBatchId s1)) s1))"

definition closeCurrentBatch :: "env \<Rightarrow> state \<Rightarrow> error + state" where
  "closeCurrentBatch e s =
     (case onlyOwner e s of Inl x \<Rightarrow> Inl x | Inr _ \<Rightarrow>
        let s1 = s\<lparr>isBatchClosed := (isBatchClosed s)(currentBatchId s := True)\<rparr>
        in Inr (emit (BatchClosed (currentBatchId s1)) s1))"

subsection \<open>Provider functions\<close>

text \<open>\<open>_initIfNeeded\<close>: one FHE addition whose result is dropped.\<close>

definition initIfNeeded :: "host \<Rightarrow> euint32 \<Rightarrow> euint32" where
  "initIfNeeded h v = fhe_add h v (asEuint32 h 0)"

definition depositTime :: "host \<Rightarrow> env \<Rightarrow> state \<Rightarrow> uint32 \<Rightarrow> error + state" where
  "depositTime h e s hours =
     (case onlyProvider e s of Inl x \<Rightarrow> Inl x | Inr _ \<Rightarrow>
      case whenNotPaused s of Inl x \<Rightarrow> Inl x | Inr _ \<Rightarrow>
      case checkCooldown e s (msg_sender e) (lastSubmissionTime s) of Inl x \<Rightarrow> Inl x | Inr _ \<Rightarrow>
        if isBatchClosed s (currentBatchId s) then Inl BatchClosedError
        else
          let encryptedHours = asEuint32 h hours;
              dropped = initIfNeeded h encryptedHours;
              s1 = emit (TimeDeposited (msg_sender e) (currentBatchId s) encryptedHours) s
          in Inr (s1\<lparr>lastSubmissionTime :=
                        (lastSubmissionTime s1)(msg_sender e := block_timestamp e)\<rparr>))"

definition withdrawTime :: "host \<Rightarrow> env \<Rightarrow> state \<Rightarrow> uint32 \<Rightarrow> error + state" where
  "withdrawTime h e s hours =
     (case onlyProvider e s of Inl x \<Rightarrow> Inl x | Inr _ \<Rightarrow>
      case whenNotPaused s of Inl x \<Rightarrow> Inl x | Inr _ \<Rightarrow>
      case checkCooldown e s (msg_sender e) (lastSubmissionTime s) of Inl x \<Rightarrow> Inl x | Inr _ \<Rightarrow>
        if isBatchClosed s (currentBatchId s) then Inl BatchClosedError
        else
          let encryptedHours = asEuint32 h hours;
              dropped = initIfNeeded h encryptedHours;
              s1 = emit (TimeWithdrawn (msg_sender e) (currentBatchId s) encryptedHours) s
          in Inr (s1\<lparr>lastSubmissionTime :=
                        (lastSubmissionTime s1)(msg_sender e := block_timestamp e)\<rparr>))"

subsection \<open>Disclosure\<close>

definition hashCiphertexts :: "host \<Rightarrow> bytes32 list \<Rightarrow> bytes32" where
  "hashCiphertexts h cts = keccak256_encode h cts (this h)"

text \<open>
  The two ciphertext locals of \<open>requestBatchSummary\<close> as they stand when the array
  \<open>cts\<close> is filled: both start as the zero handle, no storage is read.
\<close>

definition request_totals :: "host \<Rightarrow> euint32 \<times> euint32" where
  "request_totals h =
     (let totalDeposits0 = (0 :: euint32);
          totalWithdrawals0 = (0 :: euint32);
          initialized0 = False;
          (totalDeposits1, initialized1) =
             (if isInitialized h totalDeposits0 then (totalDeposits0, True)
              else (asEuint32 h 0, initialized0));
          (totalWithdrawals1, initialized2) =
             (if isInitialized h totalWithdrawals0 then (totalWithdrawals0, True)
              else (asEuint32 h 0, initialized1));
          totalDeposits2 =
             (if \<not> initialized2 then fhe_add h totalDeposits1 (asEuint32 h 0)
              else totalDeposits1)
      in (totalDeposits2, totalWithdrawals1))"

definition request_cts :: "host \<Rightarrow> bytes32 list" where
  "request_cts h =
     (let (totalDeposits, totalWithdrawals) = request_totals h
      in [toBytes32 h totalDeposits, toBytes32 h totalWithdrawals])"

text \<open>
  \<open>FHE.requestDecryption\<close> is an external call; the request id it returns is the
  argument \<open>requestId\<close>.
\<close>

definition requestBatchSummary ::
  "host \<Rightarrow> env \<Rightarrow> state \<Rightarrow> uint256 \<Rightarrow> uint256 \<Rightarrow> error + state" where
  "requestBatchSummary h e s b requestId =
     (case onlyProvider e s of Inl x \<Rightarrow> Inl x | Inr _ \<Rightarrow>
      case whenNotPaused s of Inl x \<Rightarrow> Inl x | Inr _ \<Rightarrow>
      case checkCooldown e s (msg_sender e) (lastDecryptionRequestTime s) of
        Inl x \<Rightarrow> Inl x | Inr _ \<Rightarrow>
        if \<not> isBatchClosed s b then Inl BatchNotClosed
        else
          let cts = request_cts h;
              h0 = hashCiphertexts h cts;
              s1 = s\<lparr>decryptionContexts := (decryptionContexts s)
                       (requestId := \<lparr> batchId = b, stateHash = h0, processed = False \<rparr>)\<rparr>;
              s2 = emit (DecryptionRequested requestId b) s1
          in Inr (s2\<lparr>lastDecryptionRequestTime :=
                        (lastDecryptionRequestTime s2)(msg_sender e := block_timestamp e)\<rparr>))"

text \<open>The same two locals in \<open>myCallback\<close>: declared, never assigned an encrypted zero.\<close>

definition callback_totals :: "host \<Rightarrow> euint32 \<times> euint32" where
  "callback_totals h =
     (let totalDeposits0 = (0 :: euint32);
          totalWithdrawals0 = (0 :: euint32);
          initialized0 = False;
          initialized1 = (if isInitialized h totalDeposits0 then True else initialized0);
          initialized2 = (if isInitialized h totalWithdrawals0 then True else initialized1);
          totalDeposits1 =
             (if \<not> initialized2 then fhe_add h totalDeposits0 (asEuint32 h 0)
              else totalDeposits0)
      in (totalDeposits1, totalWithdrawals0))"

definition callback_cts :: "host \<Rightarrow> bytes32 list" where
  "callback_cts h =
     (let (totalDeposits, totalWithdrawals) = callback_totals h
      in [toBytes32 h totalDeposits, toBytes32 h totalWithdrawals])"

text \<open>\<open>uint32(bytes4(_))\<close>: four bytes read big-endian.\<close>

definition uint32_of_bytes4 :: "bytes \<Rightarrow> uint32" where
  "uint32_of_bytes4 bs = foldl (\<lambda>acc b. push_bit 8 acc OR ucast b) 0 bs"

definition slice :: "nat \<Rightarrow> nat \<Rightarrow> bytes \<Rightarrow> bytes" where
  "slice i j bs = take (j - i) (drop i bs)"

definition myCallback ::
  "host \<Rightarrow> state \<Rightarrow> uint256 \<Rightarrow> bytes \<Rightarrow> bytes \<Rightarrow> error + state" where
  "myCallback h s requestId cleartexts proof =
     (if processed (decryptionContexts s requestId) then Inl ReplayError
      else
        let b = batchId (decryptionContexts s requestId);
            currentHash = hashCiphertexts h (callback_cts h)
        in if currentHash \<noteq> stateHash (decryptionContexts s requestId)
           then Inl StateMismatchError
           else if \<not> checkSignatures h requestId cleartexts proof then Inl InvalidProof
           else if length cleartexts \<noteq> 8 then Inl InvalidDecryption
           else
             let totalDepositedCleartext = uint32_of_bytes4 (slice 0 4 cleartexts);
                 totalWithdrawnCleartext = uint32_of_bytes4 (slice 4 8 cleartexts);
                 s1 = s\<lparr>decryptionContexts := (decryptionContexts s)
                          (requestId := (decryptionContexts s requestId)\<lparr>processed := True\<rparr>)\<rparr>
             in Inr (emit (DecryptionCompleted requestId b
                             totalDepositedCleartext totalWithdrawnCleartext) s1))"

subsection \<open>Transactions and histories\<close>

text \<open>
  A call names an external function and its arguments; for \<open>requestBatchSummary\<close> it
  also carries the request id the oracle answers with. A transaction that reverts
  leaves the state as it was.
\<close>

datatype call =
    TransferOwnership address
  | AddProvider address
  | RemoveProvider address
  | Pause
  | Unpause
  | SetCooldownSeconds uint256
  | OpenNewBatch
  | CloseCurrentBatch
  | DepositTime uint32
  | WithdrawTime uint32
  | RequestBatchSummary uint256 uint256
  | MyCallback uint256 bytes bytes

fun exec :: "host \<Rightarrow> state \<Rightarrow> env \<times> call \<Rightarrow> error + state" where
  "exec h s (e, TransferOwnership a) = transferOwnership e s a"
| "exec h s (e, AddProvider a) = addProvider e s a"
| "exec h s (e, RemoveProvider a) = removeProvider e s a"
| "exec h s (e, Pause) = pause e s"
| "exec h s (e, Unpause) = unpause e s"
| "exec h s (e, SetCooldownSeconds n) = setCooldownSeconds e s n"
| "exec h s (e, OpenNewBatch) = openNewBatch e s"
| "exec h s (e, CloseCurrentBatch) = closeCurrentBatch e s"
| "exec h s (e, DepositTime n) = depositTime h e s n"
| "exec h s (e, WithdrawTime n) = withdrawTime h e s n"
| "exec h s (e, RequestBatchSummary b r) = requestBatchSummary h e s b r"
| "exec h s (e, MyCallback r c p) = myCallback h s r c p"

definition step :: "host \<Rightarrow> state \<Rightarrow> env \<times> call \<Rightarrow> state" where
  "step h s tx = (case exec h s tx of Inl _ \<Rightarrow> s | Inr s' \<Rightarrow> s')"

definition run :: "host \<Rightarrow> state \<Rightarrow> (env \<times> call) list \<Rightarrow> state" where
  "run h s txs = foldl (step h) s txs"

subsection \<open>Observations used to state the properties\<close>

text \<open>
  The batch status the properties speak of: a batch id is open when it is the current
  one and not marked closed. (The contract itself only ever tests
  \<open>isBatchClosed[currentBatchId]\<close> and \<open>isBatchClosed[batchId]\<close>.)
\<close>

definition isOpen :: "state \<Rightarrow> uint256 \<Rightarrow> bool" where
  "isOpen s b = (b = currentBatchId s \<and> \<not> isBatchClosed s b)"

text \<open>Batch ids are handed out in increasing order: no id above the current one is closed.\<close>

definition closed_below_current :: "state \<Rightarrow> bool" where
  "closed_below_current s = (\<forall>b. isBatchClosed s b \<longrightarrow> b \<le> currentBatchId s)"

text \<open>The contract storage without the event log.\<close>

definition storage :: "state \<Rightarrow> state" where
  "storage s = s\<lparr>events := []\<rparr>"

fun is_completion :: "uint256 \<Rightarrow> event \<Rightarrow> bool" where
  "is_completion r (DecryptionCompleted r' b d w) = (r' = r)"
| "is_completion r ev = False"

definition completions :: "state \<Rightarrow> uint256 \<Rightarrow> nat" where
  "completions s r = length (filter (is_completion r) (events s))"

text \<open>
  The rate limiter lets a caller through when the stored time plus the cooldown,
  taken as unbounded numbers, is not after \<open>block.timestamp\<close>.
\<close>

definition cooldown_passed :: "env \<Rightarrow> state \<Rightarrow> (address \<Rightarrow> uint256) \<Rightarrow> bool" where
  "cooldown_passed e s lastTimeMap =
     (unat (lastTimeMap (msg_sender e)) + unat (cooldownSeconds s) \<le> unat (block_timestamp e))"

text \<open>
  The two cooldown classes, and the time map that the calls of each class check and
  record in: \<open>depositTime\<close> and \<open>withdrawTime\<close> use \<open>lastSubmissionTime\<close>,
  \<open>requestBatchSummary\<close> uses \<open>lastDecryptionRequestTime\<close>.
\<close>

datatype action_class = Submission | Disclosure

fun class_of :: "call \<Rightarrow> action_class option" where
  "class_of (DepositTime n) = Some Submission"
| "class_of (WithdrawTime n) = Some Submission"
| "class_of (RequestBatchSummary b r) = Some Disclosure"
| "class_of c = None"

fun lastRecorded :: "state \<Rightarrow> action_class \<Rightarrow> address \<Rightarrow> uint256" where
  "lastRecorded s Submission = lastSubmissionTime s"
| "lastRecorded s Disclosure = lastDecryptionRequestTime s"

text \<open>
  Bookkeeping of disclosure requests against the ids \<open>issued\<close> by the oracle so far: a
  context under an id never issued is still the zero record, and a request id has one
  completion event when its context is processed and none otherwise.
\<close>

definition requests_consistent :: "state \<Rightarrow> uint256 list \<Rightarrow> bool" where
  "requests_consistent s issued =
     ((\<forall>r. r \<notin> set issued \<longrightarrow>
          stateHash (decryptionContexts s r) = 0 \<and> \<not> processed (decryptionContexts s r)) \<and>
      (\<forall>r. completions s r = (if processed (decryptionContexts s r) then 1 else 0)))"

text \<open>
  A history in which the oracle never hands out the same request id twice: every
  \<open>requestBatchSummary\<close> that goes through is answered with an id not among those
  \<open>issued\<close> so far. (A reverted request issues nothing.)
\<close>

fun oracle_fresh :: "host \<Rightarrow> state \<Rightarrow> uint256 list \<Rightarrow> (env \<times> call) list \<Rightarrow> bool" where
  "oracle_fresh h s issued [] = True"
| "oracle_fresh h s issued (tx # txs) =
     (case exec h s tx of
        Inl _ \<Rightarrow> oracle_fresh h s issued txs
      | Inr s' \<Rightarrow>
          (case snd tx of
             RequestBatchSummary b r \<Rightarrow> r \<notin> set issued \<and> oracle_fresh h s' (r # issued) txs
           | _ \<Rightarrow> oracle_fresh h s' issued txs))"

subsection \<open>A test double for the host\<close>

text \<open>
  A transparent stand-in for the FHE library, used to run the contract on concrete
  inputs: a handle is the plaintext itself, addition is addition, the zero handle is
  the uninitialised one, a proof verifies when it is the single byte 1, and the hash
  is a polynomial in the array entries and the address.
\<close>

definition test_host :: host where
  "test_host =
     \<lparr> asEuint32 = (\<lambda>v. ucast v),
       fhe_add = (\<lambda>a b. a + b),
       isInitialized = (\<lambda>v. v \<noteq> 0),
       toBytes32 = (\<lambda>v. v),
       checkSignatures = (\<lambda>r c p. p = [1]),
       keccak256_encode = (\<lambda>cts a. foldl (\<lambda>acc c. acc * 31 + c) (ucast a) cts + 1),
       this = 4096 \<rparr>"

text \<open>
  A second stand-in, closer to the library: a handle is the plaintext plus one, so
  that an encrypted zero is not the zero handle, and addition reads an uninitialised
  operand as an encrypted zero.
\<close>

definition tagged_host :: host where
  "tagged_host =
     \<lparr> asEuint32 = (\<lambda>v. ucast v + 1),
       fhe_add = (\<lambda>a b. (if a = 0 then 1 else a) + (if b = 0 then 1 else b) - 1),
       isInitialized = (\<lambda>v. v \<noteq> 0),
       toBytes32 = (\<lambda>v. v),
       checkSignatures = (\<lambda>r c p. p = [1]),
       keccak256_encode = (\<lambda>cts a. foldl (\<lambda>acc c. acc * 31 + c) (ucast a) cts + 1),
       this = 4096 \<rparr>"

definition alice :: address where "alice = 1"
definition bob :: address where "bob = 2"

definition at_time :: "address \<Rightarrow> uint256 \<Rightarrow> env" where
  "at_time a t = \<lparr> msg_sender = a, block_timestamp = t \<rparr>"

text \<open>Concrete ledgers: after deployment by \<open>alice\<close>, and after closing batches 1 and 2.\<close>

definition fresh_ledger :: state where
  "fresh_ledger = constructor (at_time alice 0)"

definition closed_ledger :: state where
  "closed_ledger = run test_host fresh_ledger
     [(at_time alice 70, DepositTime 3), (at_time alice 80, CloseCurrentBatch)]"

text \<open>Batch 1 closed and its summary requested under request id 7; then disclosed.\<close>

definition requested_ledger :: state where
  "requested_ledger = run test_host closed_ledger
     [(at_time alice 100, RequestBatchSummary 1 7)]"

definition completed_ledger :: state where
  "completed_ledger = run test_host requested_ledger
     [(at_time bob 110, MyCallback 7 [0, 0, 0, 3, 0, 0, 0, 0] [1])]"

text \<open>The same deposit and closing of batch 1 on the second host.\<close>

definition tagged_closed_ledger :: state where
  "tagged_closed_ledger = run tagged_host (constructor (at_time alice 0))
     [(at_time alice 70, DepositTime 3), (at_time alice 80, CloseCurrentBatch)]"

text \<open>The history that leads to \<open>completed_ledger\<close>, and one that follows it.\<close>

definition disclosure_history :: "(env \<times> call) list" where
  "disclosure_history =
     [(at_time alice 70, DepositTime 3), (at_time alice 80, CloseCurrentBatch),
      (at_time alice 100, RequestBatchSummary 1 7),
      (at_time bob 110, MyCallback 7 [0, 0, 0, 3, 0, 0, 0, 0] [1])]"

definition later_history :: "(env \<times> call) list" where
  "later_history =
     [(at_time bob 120, MyCallback 7 [0, 0, 0, 9, 0, 0, 0, 0] [1]),
      (at_time alice 130, OpenNewBatch), (at_time alice 200, DepositTime 2)]"

definition second_closed_ledger :: state where
  "second_closed_ledger = run test_host closed_ledger
     [(at_time alice 90, OpenNewBatch), (at_time alice 140, WithdrawTime 5),
      (at_time alice 150, CloseCurrentBatch)]"

section \<open>Properties\<close>

lemmas guard_defs = onlyOwner_def onlyProvider_def whenNotPaused_def

lemmas op_defs = transferOwnership_def addProvider_def removeProvider_def pause_def unpause_def
  setCooldownSeconds_def openNewBatch_def closeCurrentBatch_def depositTime_def withdrawTime_def
  requestBatchSummary_def myCallback_def emit_def

lemmas concrete_defs = fresh_ledger_def closed_ledger_def second_closed_ledger_def
  requested_ledger_def completed_ledger_def disclosure_history_def later_history_def
  tagged_closed_ledger_def
  constructor_def at_time_def alice_def bob_def test_host_def run_def step_def
  checkCooldown_def checked_add_def request_cts_def request_totals_def callback_cts_def
  callback_totals_def hashCiphertexts_def initIfNeeded_def

subsection \<open>The rate limiter in numbers\<close>

lemma unat_uint256_bound: "unat (w :: uint256) < 2 ^ 256"
  using unsigned_less [of w, where 'a = nat] by simp

lemma checkCooldown_Inr_iff:
  "checkCooldown e s (msg_sender e) m = Inr u \<longleftrightarrow> cooldown_passed e s m"
proof (cases "unat (m (msg_sender e)) + unat (cooldownSeconds s) < 2 ^ 256")
  case True
  then have "unat (m (msg_sender e) + cooldownSeconds s) =
      unat (m (msg_sender e)) + unat (cooldownSeconds s)"
    by (simp add: unat_add_lem [THEN iffD1])
  with True show ?thesis
    by (auto simp: checkCooldown_def checked_add_def cooldown_passed_def word_less_nat_alt)
next
  case False
  with unat_uint256_bound [of "block_timestamp e"] show ?thesis
    by (auto simp: checkCooldown_def checked_add_def cooldown_passed_def)
qed

lemma checkCooldown_active_iff:
  "checkCooldown e s (msg_sender e) m = Inl CooldownActive \<longleftrightarrow>
     unat (m (msg_sender e)) + unat (cooldownSeconds s) < 2 ^ 256 \<and>
     unat (block_timestamp e) < unat (m (msg_sender e)) + unat (cooldownSeconds s)"
proof (cases "unat (m (msg_sender e)) + unat (cooldownSeconds s) < 2 ^ 256")
  case True
  then have "unat (m (msg_sender e) + cooldownSeconds s) =
      unat (m (msg_sender e)) + unat (cooldownSeconds s)"
    by (simp add: unat_add_lem [THEN iffD1])
  with True show ?thesis
    by (auto simp: checkCooldown_def checked_add_def word_less_nat_alt)
next
  case False
  then show ?thesis
    by (auto simp: checkCooldown_def checked_add_def)
qed

lemma checkCooldown_cases:
  "checkCooldown e s a m = Inr () \<or> checkCooldown e s a m = Inl CooldownActive
     \<or> checkCooldown e s a m = Inl Panic"
  by (auto simp: checkCooldown_def split: option.splits)

subsection \<open>What a call does to the disclosure requests\<close>

lemma completions_emit:
  "completions (emit ev s) q = completions s q + (if is_completion q ev then 1 else 0)"
  by (simp add: completions_def emit_def)

lemma completions_update [simp]:
  "completions (s\<lparr>owner := a\<rparr>) = completions s"
  "completions (s\<lparr>isProvider := f\<rparr>) = completions s"
  "completions (s\<lparr>paused := p\<rparr>) = completions s"
  "completions (s\<lparr>cooldownSeconds := n\<rparr>) = completions s"
  "completions (s\<lparr>lastSubmissionTime := l\<rparr>) = completions s"
  "completions (s\<lparr>lastDecryptionRequestTime := l\<rparr>) = completions s"
  "completions (s\<lparr>currentBatchId := n\<rparr>) = completions s"
  "completions (s\<lparr>isBatchClosed := g\<rparr>) = completions s"
  "completions (s\<lparr>decryptionContexts := d\<rparr>) = completions s"
  by (simp_all add: completions_def fun_eq_iff)

lemma decryptionContexts_emit [simp]: "decryptionContexts (emit ev s) = decryptionContexts s"
  by (simp add: emit_def)

lemma exec_request_effect:
  assumes "exec h s (e, RequestBatchSummary b r) = Inr s'"
  shows "decryptionContexts s' = (decryptionContexts s)
           (r := \<lparr> batchId = b, stateHash = hashCiphertexts h (request_cts h),
                   processed = False \<rparr>)"
    and "completions s' = completions s"
  using assms
  by (auto simp: requestBatchSummary_def Let_def completions_emit fun_eq_iff
           split: sum.splits if_splits)

lemma exec_callback_effect:
  assumes "exec h s (e, MyCallback r c p) = Inr s'"
  shows "\<not> processed (decryptionContexts s r)"
    and "stateHash (decryptionContexts s r) = hashCiphertexts h (callback_cts h)"
    and "checkSignatures h r c p" and "length c = 8"
    and "decryptionContexts s' = (decryptionContexts s)
           (r := (decryptionContexts s r)\<lparr>processed := True\<rparr>)"
    and "completions s' q = completions s q + (if q = r then 1 else 0)"
  using assms
  by (auto simp: myCallback_def Let_def completions_emit split: if_splits)

lemma exec_other_effect:
  assumes "exec h s (e, c) = Inr s'"
      and "\<And>b r. c \<noteq> RequestBatchSummary b r" and "\<And>r cl p. c \<noteq> MyCallback r cl p"
  shows "decryptionContexts s' = decryptionContexts s" and "completions s' = completions s"
  using assms
  by (cases c;
      auto simp: transferOwnership_def addProvider_def removeProvider_def pause_def unpause_def
        setCooldownSeconds_def openNewBatch_def closeCurrentBatch_def depositTime_def
        withdrawTime_def Let_def completions_emit fun_eq_iff
        split: sum.splits if_splits option.splits)+

lemma request_stores_commitment:
  assumes "requestBatchSummary h e s b r = Inr s1"
  shows "decryptionContexts s1 r =
           \<lparr> batchId = b, stateHash = hashCiphertexts h (request_cts h), processed = False \<rparr>"
  using assms
  by (auto simp: requestBatchSummary_def emit_def Let_def split: sum.splits if_splits)

text \<open>
  The callback does not rebuild the array the request hashed: the request assigns an
  encrypted zero to both locals, the callback leaves them as declared. On a host where
  the zero handle is uninitialised, an encrypted zero is a different \<open>bytes32\<close>, and the
  hash tells arrays apart, the stored and the recomputed commitment differ, and the
  callback of a request just made stops at the commitment check.
\<close>

lemma request_callback_arrays_differ:
  assumes "\<not> isInitialized h 0" and "toBytes32 h (asEuint32 h 0) \<noteq> toBytes32 h 0"
  shows "request_cts h \<noteq> callback_cts h"
  using assms
  by (simp add: request_cts_def request_totals_def callback_cts_def callback_totals_def)

lemma fresh_request_fails_commitment_check:
  assumes "\<not> isInitialized h 0" and "toBytes32 h (asEuint32 h 0) \<noteq> toBytes32 h 0"
      and "\<And>x y. keccak256_encode h x (this h) = keccak256_encode h y (this h) \<Longrightarrow> x = y"
      and "requestBatchSummary h e s b r = Inr s1"
  shows "myCallback h s1 r c p = Inl StateMismatchError"
proof -
  from request_callback_arrays_differ [OF assms(1,2)] assms(3)
  have "hashCiphertexts h (callback_cts h) \<noteq> hashCiphertexts h (request_cts h)"
    unfolding hashCiphertexts_def by metis
  with request_stores_commitment [OF assms(4)] show ?thesis
    by (simp add: myCallback_def Let_def)
qed

subsection \<open>Provider registry\<close>

text \<open>
  Claim C10. \<open>addProvider\<close> and \<open>removeProvider\<close> are idempotent. Whoever calls, a call
  that leaves the membership of the account as it was leaves the whole state as it
  was, the event log included; a call that changes the membership changes nothing but
  that one entry of \<open>isProvider\<close> and appends exactly one \<open>ProviderAdded\<close> /
  \<open>ProviderRemoved\<close> event. Called by the owner the functions return without revert
  and the account is a provider after \<open>addProvider\<close> and none after \<open>removeProvider\<close>.
  Running the same call twice in a row leaves the state the first run left.
\<close>

theorem provider_update_idempotent:
  "(isProvider (step h s (e, AddProvider a)) a = isProvider s a \<longrightarrow>
      step h s (e, AddProvider a) = s) \<and>
   (isProvider (step h s (e, AddProvider a)) a \<noteq> isProvider s a \<longrightarrow>
      step h s (e, AddProvider a) =
        s\<lparr>isProvider := (isProvider s)(a := True),
          events := events s @ [ProviderAdded a]\<rparr>) \<and>
   (isProvider (step h s (e, RemoveProvider a)) a = isProvider s a \<longrightarrow>
      step h s (e, RemoveProvider a) = s) \<and>
   (isProvider (step h s (e, RemoveProvider a)) a \<noteq> isProvider s a \<longrightarrow>
      step h s (e, RemoveProvider a) =
        s\<lparr>isProvider := (isProvider s)(a := False),
          events := events s @ [ProviderRemoved a]\<rparr>) \<and>
   (msg_sender e = owner s \<longrightarrow>
      addProvider e s a = Inr (step h s (e, AddProvider a)) \<and>
      removeProvider e s a = Inr (step h s (e, RemoveProvider a)) \<and>
      isProvider (step h s (e, AddProvider a)) a \<and>
      \<not> isProvider (step h s (e, RemoveProvider a)) a) \<and>
   step h (step h s (e, AddProvider a)) (e, AddProvider a) = step h s (e, AddProvider a) \<and>
   step h (step h s (e, RemoveProvider a)) (e, RemoveProvider a) =
     step h s (e, RemoveProvider a)"
  by (auto simp: step_def addProvider_def removeProvider_def onlyOwner_def emit_def)

theorem provider_update_idempotent_witness:
  "msg_sender (at_time alice 5) = owner fresh_ledger \<and>
   isProvider fresh_ledger alice \<and> \<not> isProvider fresh_ledger bob \<and>
   step test_host fresh_ledger (at_time alice 5, AddProvider alice) = fresh_ledger \<and>
   step test_host fresh_ledger (at_time alice 5, AddProvider bob) =
     fresh_ledger\<lparr>isProvider := (isProvider fresh_ledger)(bob := True),
                  events := events fresh_ledger @ [ProviderAdded bob]\<rparr> \<and>
   step test_host fresh_ledger (at_time alice 5, RemoveProvider bob) = fresh_ledger \<and>
   step test_host fresh_ledger (at_time alice 5, RemoveProvider alice) =
     fresh_ledger\<lparr>isProvider := (isProvider fresh_ledger)(alice := False),
                  events := events fresh_ledger @ [ProviderRemoved alice]\<rparr> \<and>
   addProvider (at_time alice 5) fresh_ledger bob =
     Inr (step test_host fresh_ledger (at_time alice 5, AddProvider bob)) \<and>
   step test_host (step test_host fresh_ledger (at_time alice 5, AddProvider bob))
     (at_time alice 5, AddProvider bob) =
   step test_host fresh_ledger (at_time alice 5, AddProvider bob)"
proof -
  note for_alice = provider_update_idempotent [of test_host fresh_ledger "at_time alice 5" alice]
  note for_bob = provider_update_idempotent [of test_host fresh_ledger "at_time alice 5" bob]
  have own: "msg_sender (at_time alice 5) = owner fresh_ledger"
    and a: "isProvider fresh_ledger alice" and b: "\<not> isProvider fresh_ledger bob"
    by (simp_all add: fresh_ledger_def constructor_def at_time_def alice_def bob_def)
  note owner_alice = for_alice [THEN conjunct2, THEN conjunct2, THEN conjunct2, THEN conjunct2,
      THEN conjunct1, rule_format, OF own]
  note owner_bob = for_bob [THEN conjunct2, THEN conjunct2, THEN conjunct2, THEN conjunct2,
      THEN conjunct1, rule_format, OF own]
  from owner_alice a
  have a1: "isProvider (step test_host fresh_ledger (at_time alice 5, AddProvider alice)) alice
      = isProvider fresh_ledger alice"
    by (elim conjE) simp
  from owner_alice a
  have a2: "isProvider (step test_host fresh_ledger (at_time alice 5, RemoveProvider alice)) alice
      \<noteq> isProvider fresh_ledger alice"
    by (elim conjE) simp
  from owner_bob b
  have b1: "isProvider (step test_host fresh_ledger (at_time alice 5, AddProvider bob)) bob
      \<noteq> isProvider fresh_ledger bob"
    by (elim conjE) simp
  from owner_bob b
  have b2: "isProvider (step test_host fresh_ledger (at_time alice 5, RemoveProvider bob)) bob
      = isProvider fresh_ledger bob"
    by (elim conjE) simp
  from for_alice [THEN conjunct1, rule_format, OF a1]
  have r1: "step test_host fresh_ledger (at_time alice 5, AddProvider alice) = fresh_ledger" .
  from for_bob [THEN conjunct2, THEN conjunct1, rule_format, OF b1]
  have r2: "step test_host fresh_ledger (at_time alice 5, AddProvider bob) =
     fresh_ledger\<lparr>isProvider := (isProvider fresh_ledger)(bob := True),
                  events := events fresh_ledger @ [ProviderAdded bob]\<rparr>" .
  from for_bob [THEN conjunct2, THEN conjunct2, THEN conjunct1, rule_format, OF b2]
  have r3: "step test_host fresh_ledger (at_time alice 5, RemoveProvider bob) = fresh_ledger" .
  from for_alice [THEN conjunct2, THEN conjunct2, THEN conjunct2, THEN conjunct1,
      rule_format, OF a2]
  have r4: "step test_host fresh_ledger (at_time alice 5, RemoveProvider alice) =
     fresh_ledger\<lparr>isProvider := (isProvider fresh_ledger)(alice := False),
                  events := events fresh_ledger @ [ProviderRemoved alice]\<rparr>" .
  from owner_bob
  have r5: "addProvider (at_time alice 5) fresh_ledger bob =
     Inr (step test_host fresh_ledger (at_time alice 5, AddProvider bob))"
    by (elim conjE)
  from for_bob [THEN conjunct2, THEN conjunct2, THEN conjunct2, THEN conjunct2,
      THEN conjunct2, THEN conjunct1]
  have r6: "step test_host (step test_host fresh_ledger (at_time alice 5, AddProvider bob))
     (at_time alice 5, AddProvider bob) =
     step test_host fresh_ledger (at_time alice 5, AddProvider bob)" .
  from own a b r1 r2 r3 r4 r5 r6 show ?thesis
    by - (intro conjI; assumption)
qed

subsection \<open>Batches\<close>

lemma checked_add_one:
  assumes "checked_add n 1 = Some m"
  shows "n < m"
proof -
  from assms have lt: "unat n + 1 < 2 ^ 256" and m: "m = n + 1"
    by (auto simp: checked_add_def split: if_splits)
  from lt have "unat (n + 1) = unat n + 1"
    using unat_add_lem [of n 1] by simp
  with m show ?thesis
    by (simp add: word_less_nat_alt)
qed

lemma exec_closed_below_current:
  assumes "closed_below_current s" and "exec h s tx = Inr s'"
  shows "closed_below_current s'"
proof (cases tx)
  case (Pair e c)
  show ?thesis
  proof (cases c)
    case OpenNewBatch
    with Pair assms(2) obtain m where m: "checked_add (currentBatchId s) 1 = Some m"
      and s': "s' = emit (BatchOpened m) (s\<lparr>currentBatchId := m\<rparr>)"
      by (auto simp: openNewBatch_def Let_def split: sum.splits option.splits)
    from checked_add_one [OF m] assms(1) show ?thesis
      by (fastforce simp: closed_below_current_def s' emit_def)
  next
    case CloseCurrentBatch
    with Pair assms show ?thesis
      by (auto simp: closeCurrentBatch_def closed_below_current_def emit_def Let_def
               split: sum.splits if_splits)
  qed (use Pair assms in \<open>auto simp: op_defs closed_below_current_def Let_def
          split: sum.splits if_splits\<close>)
qed

lemma step_closed_below_current:
  "closed_below_current s \<Longrightarrow> closed_below_current (step h s tx)"
  by (auto simp: step_def dest: exec_closed_below_current split: sum.splits)

lemma run_closed_below_current:
  "closed_below_current s \<Longrightarrow> closed_below_current (run h s txs)"
  unfolding run_def
  by (induction txs arbitrary: s) (simp_all add: step_closed_below_current)

lemma constructor_closed_below_current: "closed_below_current (constructor d)"
  by (simp add: closed_below_current_def constructor_def)

text \<open>
  Claim C2, as amended. In every state reached from deployment at most one batch is
  open, where a batch id is open iff it is \<open>currentBatchId\<close> and not closed. A successful
  \<open>openNewBatch\<close> leaves exactly one open batch, the new current one, as deployment
  does; a successful \<open>closeCurrentBatch\<close> leaves none, until the owner opens the next
  batch.
\<close>

theorem at_most_one_open_batch:
  assumes "s = run h (constructor d) txs"
  shows "(isOpen s b \<and> isOpen s b' \<longrightarrow> b = b') \<and>
         (openNewBatch e s = Inr s' \<longrightarrow> (\<exists>!n. isOpen s' n) \<and> isOpen s' (currentBatchId s')) \<and>
         (closeCurrentBatch e s = Inr s' \<longrightarrow> \<not> (\<exists>n. isOpen s' n)) \<and>
         (\<exists>!n. isOpen (constructor d) n)"
proof -
  have inv: "closed_below_current s"
    unfolding assms
    by (rule run_closed_below_current [OF constructor_closed_below_current])
  have one: "isOpen s b \<and> isOpen s b' \<longrightarrow> b = b'"
    by (simp add: isOpen_def)
  have opened: "(\<exists>!n. isOpen s' n) \<and> isOpen s' (currentBatchId s')"
    if "openNewBatch e s = Inr s'"
  proof -
    from that have "exec h s (e, OpenNewBatch) = Inr s'" by simp
    from exec_closed_below_current [OF inv this] have inv': "closed_below_current s'" .
    from that obtain m where m: "checked_add (currentBatchId s) 1 = Some m"
      and s': "s' = emit (BatchOpened m) (s\<lparr>currentBatchId := m\<rparr>)"
      by (auto simp: openNewBatch_def Let_def split: sum.splits option.splits)
    have "\<not> isBatchClosed s m"
    proof
      assume "isBatchClosed s m"
      with inv have "m \<le> currentBatchId s"
        by (simp add: closed_below_current_def)
      with checked_add_one [OF m] show False by simp
    qed
    then have "isOpen s' (currentBatchId s')"
      by (simp add: isOpen_def s' emit_def)
    then show ?thesis
      by (auto simp: isOpen_def)
  qed
  have closed: "\<not> (\<exists>n. isOpen s' n)" if "closeCurrentBatch e s = Inr s'"
    using that
    by (auto simp: closeCurrentBatch_def isOpen_def emit_def Let_def split: sum.splits)
  have deployed: "\<exists>!n. isOpen (constructor d) n"
    by (auto simp: isOpen_def constructor_def)
  from one opened closed deployed show ?thesis by blast
qed

theorem at_most_one_open_batch_witness:
  "closed_ledger = run test_host (constructor (at_time alice 0))
      [(at_time alice 70, DepositTime 3), (at_time alice 80, CloseCurrentBatch)] \<and>
   (\<exists>s'. openNewBatch (at_time alice 90) closed_ledger = Inr s' \<and>
         (\<exists>!n. isOpen s' n) \<and> isOpen s' (currentBatchId s')) \<and>
   (\<exists>s'. closeCurrentBatch (at_time alice 90) closed_ledger = Inr s' \<and>
         \<not> (\<exists>n. isOpen s' n))"
proof -
  have reach: "closed_ledger = run test_host (constructor (at_time alice 0))
      [(at_time alice 70, DepositTime 3), (at_time alice 80, CloseCurrentBatch)]"
    by (simp add: closed_ledger_def fresh_ledger_def)
  obtain s1 where s1: "openNewBatch (at_time alice 90) closed_ledger = Inr s1"
    by (auto simp: concrete_defs op_defs guard_defs)
  obtain s2 where s2: "closeCurrentBatch (at_time alice 90) closed_ledger = Inr s2"
    by (auto simp: concrete_defs op_defs guard_defs)
  from at_most_one_open_batch [OF reach, THEN conjunct2, THEN conjunct1, rule_format, OF s1]
  have a: "(\<exists>!n. isOpen s1 n) \<and> isOpen s1 (currentBatchId s1)" .
  from at_most_one_open_batch [OF reach, THEN conjunct2, THEN conjunct2, THEN conjunct1,
      rule_format, OF s2]
  have b: "\<not> (\<exists>n. isOpen s2 n)" .
  from s1 a have "\<exists>s'. openNewBatch (at_time alice 90) closed_ledger = Inr s' \<and>
         (\<exists>!n. isOpen s' n) \<and> isOpen s' (currentBatchId s')"
    by (intro exI [of _ s1] conjI) (erule conjunct1 conjunct2 | assumption)+
  moreover from s2 b have "\<exists>s'. closeCurrentBatch (at_time alice 90) closed_ledger = Inr s' \<and>
         \<not> (\<exists>n. isOpen s' n)"
    by (intro exI [of _ s2] conjI)
  ultimately show ?thesis
    using reach by - (intro conjI; assumption)
qed

text \<open>
  The claim as stated fails: after deployment, one deposit and \<open>closeCurrentBatch\<close>, no
  batch is open, so it is not the case that exactly one is.
\<close>

theorem no_open_batch_after_close:
  "\<not> (\<exists>!b. isOpen (run test_host (constructor (at_time alice 0))
      [(at_time alice 70, DepositTime 3), (at_time alice 80, CloseCurrentBatch)]) b)"
  by (auto simp: isOpen_def concrete_defs op_defs guard_defs)

subsection \<open>Deposits and withdrawals\<close>

lemma submission_accepted:
  assumes "isProvider s (msg_sender e)" and "\<not> paused s"
      and "cooldown_passed e s (lastSubmissionTime s)"
      and "\<not> isBatchClosed s (currentBatchId s)"
  shows "depositTime h e s amt =
           Inr (s\<lparr>events := events s @
                    [TimeDeposited (msg_sender e) (currentBatchId s) (asEuint32 h amt)],
                  lastSubmissionTime :=
                    (lastSubmissionTime s)(msg_sender e := block_timestamp e)\<rparr>)"
    and "withdrawTime h e s amt =
           Inr (s\<lparr>events := events s @
                    [TimeWithdrawn (msg_sender e) (currentBatchId s) (asEuint32 h amt)],
                  lastSubmissionTime :=
                    (lastSubmissionTime s)(msg_sender e := block_timestamp e)\<rparr>)"
proof -
  from assms(3) have "checkCooldown e s (msg_sender e) (lastSubmissionTime s) = Inr ()"
    by (simp add: checkCooldown_Inr_iff)
  with assms(1,2,4) show
    "depositTime h e s amt =
           Inr (s\<lparr>events := events s @
                    [TimeDeposited (msg_sender e) (currentBatchId s) (asEuint32 h amt)],
                  lastSubmissionTime :=
                    (lastSubmissionTime s)(msg_sender e := block_timestamp e)\<rparr>)"
    and "withdrawTime h e s amt =
           Inr (s\<lparr>events := events s @
                    [TimeWithdrawn (msg_sender e) (currentBatchId s) (asEuint32 h amt)],
                  lastSubmissionTime :=
                    (lastSubmissionTime s)(msg_sender e := block_timestamp e)\<rparr>)"
    by (simp_all add: depositTime_def withdrawTime_def guard_defs emit_def Let_def)
qed

text \<open>
  Claim C1, as amended. An accepted \<open>depositTime(amount)\<close> (resp. \<open>withdrawTime(amount)\<close>)
  call - the caller is a provider, the contract is not paused, the submission cooldown
  has passed and the current batch is not closed - converts the amount to an encrypted
  handle and appends one \<open>TimeDeposited\<close> (resp. \<open>TimeWithdrawn\<close>) event carrying the caller,
  the current batch id and that handle, never the plaintext. Its only storage write is
  \<open>lastSubmissionTime[caller] = block.timestamp\<close>: the contract keeps no per-batch
  aggregate, and the sum computed by \<open>_initIfNeeded\<close> is dropped. So the storage an
  accepted call leaves is the same for every amount.
\<close>

theorem accepted_submission_effect:
  assumes "isProvider s (msg_sender e)" and "\<not> paused s"
      and "cooldown_passed e s (lastSubmissionTime s)"
      and "isOpen s (currentBatchId s)"
  shows "depositTime h e s amt =
           Inr (s\<lparr>events := events s @
                    [TimeDeposited (msg_sender e) (currentBatchId s) (asEuint32 h amt)],
                  lastSubmissionTime :=
                    (lastSubmissionTime s)(msg_sender e := block_timestamp e)\<rparr>) \<and>
         withdrawTime h e s amt =
           Inr (s\<lparr>events := events s @
                    [TimeWithdrawn (msg_sender e) (currentBatchId s) (asEuint32 h amt)],
                  lastSubmissionTime :=
                    (lastSubmissionTime s)(msg_sender e := block_timestamp e)\<rparr>) \<and>
         storage (step h s (e, DepositTime amt)) = storage (step h s (e, DepositTime amt')) \<and>
         storage (step h s (e, WithdrawTime amt)) = storage (step h s (e, WithdrawTime amt'))"
proof -
  from assms(4) have nc: "\<not> isBatchClosed s (currentBatchId s)"
    by (simp add: isOpen_def)
  note acc = submission_accepted [OF assms(1,2,3) nc]
  show ?thesis
    by (simp add: acc step_def storage_def)
qed

theorem accepted_submission_effect_witness:
  "isProvider fresh_ledger (msg_sender (at_time alice 100)) \<and> \<not> paused fresh_ledger \<and>
   cooldown_passed (at_time alice 100) fresh_ledger (lastSubmissionTime fresh_ledger) \<and>
   isOpen fresh_ledger (currentBatchId fresh_ledger) \<and>
   depositTime test_host (at_time alice 100) fresh_ledger 3 =
     Inr (fresh_ledger\<lparr>events := events fresh_ledger @ [TimeDeposited alice 1 3],
                       lastSubmissionTime := (lastSubmissionTime fresh_ledger)(alice := 100)\<rparr>)"
proof -
  have p: "isProvider fresh_ledger (msg_sender (at_time alice 100))"
    and q: "\<not> paused fresh_ledger"
    and c: "cooldown_passed (at_time alice 100) fresh_ledger (lastSubmissionTime fresh_ledger)"
    and b: "isOpen fresh_ledger (currentBatchId fresh_ledger)"
    by (simp_all add: concrete_defs cooldown_passed_def isOpen_def)
  have v: "msg_sender (at_time alice 100) = alice"
      "block_timestamp (at_time alice 100) = 100"
      "currentBatchId fresh_ledger = 1"
      "asEuint32 test_host 3 = 3"
    by (simp_all add: concrete_defs)
  from accepted_submission_effect [OF p q c b, of test_host 3, THEN conjunct1]
  have "depositTime test_host (at_time alice 100) fresh_ledger 3 =
     Inr (fresh_ledger\<lparr>events := events fresh_ledger @ [TimeDeposited alice 1 3],
                       lastSubmissionTime := (lastSubmissionTime fresh_ledger)(alice := 100)\<rparr>)"
    unfolding v .
  with p q c b show ?thesis
    by - (intro conjI; assumption)
qed

text \<open>
  The claim as stated fails: no function of the storage can be the running
  \<open>totalDeposited\<close> of the current batch. With the transparent host, accepted deposits
  of 3 and of 5 hours into the fresh ledger leave the same storage, while adding 3 and
  adding 5 to one total give different totals.
\<close>

theorem submission_updates_no_aggregate:
  "\<not> (\<exists>totalDeposited. \<forall>amt s'.
        depositTime test_host (at_time alice 100) fresh_ledger amt = Inr s' \<longrightarrow>
        totalDeposited (storage s') =
          fhe_add test_host (totalDeposited (storage fresh_ledger)) (asEuint32 test_host amt))"
proof
  assume "\<exists>totalDeposited. \<forall>amt s'.
        depositTime test_host (at_time alice 100) fresh_ledger amt = Inr s' \<longrightarrow>
        totalDeposited (storage s') =
          fhe_add test_host (totalDeposited (storage fresh_ledger)) (asEuint32 test_host amt)"
  then obtain total :: "state \<Rightarrow> euint32" where total: "\<And>amt s'.
        depositTime test_host (at_time alice 100) fresh_ledger amt = Inr s' \<Longrightarrow>
        total (storage s') =
          fhe_add test_host (total (storage fresh_ledger)) (asEuint32 test_host amt)"
    by blast
  have p: "isProvider fresh_ledger (msg_sender (at_time alice 100))"
    and q: "\<not> paused fresh_ledger"
    and c: "cooldown_passed (at_time alice 100) fresh_ledger (lastSubmissionTime fresh_ledger)"
    and b: "\<not> isBatchClosed fresh_ledger (currentBatchId fresh_ledger)"
    by (simp_all add: concrete_defs cooldown_passed_def)
  note acc = submission_accepted(1) [OF p q c b, of test_host]
  from total [OF acc [of 3]] total [OF acc [of 5]]
  have "fhe_add test_host (total (storage fresh_ledger)) (asEuint32 test_host 3) =
        fhe_add test_host (total (storage fresh_ledger)) (asEuint32 test_host 5)"
    by (simp add: storage_def)
  then have "(3 :: 256 word) = 5"
    by (simp add: test_host_def)
  then show False by simp
qed

subsection \<open>Closed batches\<close>

lemma exec_keeps_closed:
  assumes "exec h s tx = Inr s'" and "isBatchClosed s b"
  shows "isBatchClosed s' b"
proof (cases tx)
  case (Pair e c)
  with assms show ?thesis
    by (cases c) (auto simp: op_defs Let_def split: sum.splits if_splits option.splits)
qed

lemma step_keeps_closed: "isBatchClosed s b \<Longrightarrow> isBatchClosed (step h s tx) b"
  by (auto simp: step_def dest: exec_keeps_closed split: sum.splits)

lemma run_keeps_closed: "isBatchClosed s b \<Longrightarrow> isBatchClosed (run h s txs) b"
  unfolding run_def
  by (induction txs arbitrary: s) (simp_all add: step_keeps_closed)

lemma submission_on_closed_batch:
  assumes "isBatchClosed s (currentBatchId s)"
  shows "\<exists>err. depositTime h e s amt = Inl err" and "\<exists>err. withdrawTime h e s amt = Inl err"
  using assms
  by (auto simp: depositTime_def withdrawTime_def split: sum.splits)

lemma submission_BatchClosedError:
  assumes "isBatchClosed s (currentBatchId s)"
      and "isProvider s (msg_sender e)" and "\<not> paused s"
      and "cooldown_passed e s (lastSubmissionTime s)"
  shows "depositTime h e s amt = Inl BatchClosedError"
    and "withdrawTime h e s amt = Inl BatchClosedError"
proof -
  from assms(4) have "checkCooldown e s (msg_sender e) (lastSubmissionTime s) = Inr ()"
    by (simp add: checkCooldown_Inr_iff)
  with assms(1-3) show "depositTime h e s amt = Inl BatchClosedError"
    and "withdrawTime h e s amt = Inl BatchClosedError"
    by (simp_all add: depositTime_def withdrawTime_def guard_defs)
qed

text \<open>
  Claim C6, as amended. Once a batch is closed it is never reopened: \<open>isBatchClosed[b]\<close>,
  once true, stays true under every call and every sequence of calls, so \<open>b\<close> is never
  open again. While the current batch is closed every \<open>depositTime\<close> or \<open>withdrawTime\<close>
  call reverts and leaves the whole state unchanged; the error is \<open>BatchClosedError\<close>
  when the caller is a provider, the contract is not paused and the submission
  cooldown has passed, and the error of the earlier guard otherwise.
\<close>

theorem closed_batch_stays_closed:
  "(isBatchClosed s b \<longrightarrow>
      isBatchClosed (step h s tx) b \<and> isBatchClosed (run h s txs) b \<and>
      \<not> isOpen (run h s txs) b) \<and>
   (isBatchClosed s (currentBatchId s) \<longrightarrow>
      (\<exists>err. depositTime h e s amt = Inl err) \<and>
      (\<exists>err. withdrawTime h e s amt = Inl err) \<and>
      step h s (e, DepositTime amt) = s \<and> step h s (e, WithdrawTime amt) = s) \<and>
   (isBatchClosed s (currentBatchId s) \<and> isProvider s (msg_sender e) \<and> \<not> paused s \<and>
      cooldown_passed e s (lastSubmissionTime s) \<longrightarrow>
      depositTime h e s amt = Inl BatchClosedError \<and>
      withdrawTime h e s amt = Inl BatchClosedError)"
proof (intro conjI impI)
  assume c: "isBatchClosed s b"
  then show "isBatchClosed (step h s tx) b" by (rule step_keeps_closed)
  from c show "isBatchClosed (run h s txs) b" by (rule run_keeps_closed)
  then show "\<not> isOpen (run h s txs) b" by (simp add: isOpen_def)
next
  assume c: "isBatchClosed s (currentBatchId s)"
  from submission_on_closed_batch [OF c, of h e amt]
  show "\<exists>err. depositTime h e s amt = Inl err" and "\<exists>err. withdrawTime h e s amt = Inl err"
    and "step h s (e, DepositTime amt) = s" and "step h s (e, WithdrawTime amt) = s"
    by (auto simp: step_def)
next
  assume a: "isBatchClosed s (currentBatchId s) \<and> isProvider s (msg_sender e) \<and> \<not> paused s \<and>
      cooldown_passed e s (lastSubmissionTime s)"
  then show "depositTime h e s amt = Inl BatchClosedError"
    by (intro submission_BatchClosedError) simp_all
  from a show "withdrawTime h e s amt = Inl BatchClosedError"
    by (intro submission_BatchClosedError) simp_all
qed

theorem closed_batch_stays_closed_witness:
  "isBatchClosed closed_ledger 1 \<and> currentBatchId closed_ledger = 1 \<and>
   isBatchClosed second_closed_ledger 1 \<and> \<not> isOpen second_closed_ledger 1 \<and>
   step test_host closed_ledger (at_time bob 200, DepositTime 3) = closed_ledger \<and>
   depositTime test_host (at_time alice 200) closed_ledger 3 = Inl BatchClosedError \<and>
   withdrawTime test_host (at_time alice 200) closed_ledger 3 = Inl BatchClosedError"
proof -
  note inst = closed_batch_stays_closed [of closed_ledger 1 test_host _
      "[(at_time alice 90, OpenNewBatch), (at_time alice 140, WithdrawTime 5),
        (at_time alice 150, CloseCurrentBatch)]"]
  have c1: "isBatchClosed closed_ledger 1" and cur: "currentBatchId closed_ledger = 1"
    by (simp_all add: concrete_defs op_defs guard_defs)
  then have cc: "isBatchClosed closed_ledger (currentBatchId closed_ledger)"
    by simp
  have pre: "isBatchClosed closed_ledger (currentBatchId closed_ledger) \<and>
      isProvider closed_ledger (msg_sender (at_time alice 200)) \<and> \<not> paused closed_ledger \<and>
      cooldown_passed (at_time alice 200) closed_ledger (lastSubmissionTime closed_ledger)"
    by (simp add: concrete_defs op_defs guard_defs cooldown_passed_def)
  from inst [THEN conjunct1, rule_format, OF c1]
  have k: "isBatchClosed second_closed_ledger 1" and o: "\<not> isOpen second_closed_ledger 1"
    by (simp_all add: second_closed_ledger_def)
  from inst [of _ "at_time bob 200" 3, THEN conjunct2, THEN conjunct1, rule_format, OF cc]
  have r: "step test_host closed_ledger (at_time bob 200, DepositTime 3) = closed_ledger"
    by (elim conjE)
  note both = inst [of _ "at_time alice 200" 3, THEN conjunct2, THEN conjunct2, rule_format, OF pre]
  from both [THEN conjunct1]
  have d: "depositTime test_host (at_time alice 200) closed_ledger 3 = Inl BatchClosedError" .
  from both [THEN conjunct2]
  have w: "withdrawTime test_host (at_time alice 200) closed_ledger 3 = Inl BatchClosedError" .
  from c1 cur k o r d w show ?thesis
    by - (intro conjI; assumption)
qed

text \<open>
  The claim as stated fails: with batch 1 closed, a \<open>depositTime\<close> call by an account
  that is not a provider is stopped by \<open>onlyProvider\<close> before the batch is looked at.
\<close>

theorem closed_batch_other_error:
  "isBatchClosed closed_ledger (currentBatchId closed_ledger) \<and>
   depositTime test_host (at_time bob 200) closed_ledger 3 = Inl NotProvider \<and>
   depositTime test_host (at_time bob 200) closed_ledger 3 \<noteq> Inl BatchClosedError"
  by (simp add: concrete_defs op_defs guard_defs)

subsection \<open>Cooldowns\<close>

lemma class_of_cases:
  assumes "class_of c = Some k"
  obtains n where "c = DepositTime n" "k = Submission"
    | n where "c = WithdrawTime n" "k = Submission"
    | b r where "c = RequestBatchSummary b r" "k = Disclosure"
  using assms by (cases c) auto

lemma exec_class_Inr:
  assumes "class_of c = Some k" and "exec h s (e, c) = Inr s1"
  shows "isProvider s (msg_sender e)" and "\<not> paused s"
    and "cooldown_passed e s (lastRecorded s k)"
    and "lastRecorded s1 k = (lastRecorded s k)(msg_sender e := block_timestamp e)"
    and "k' \<noteq> k \<Longrightarrow> lastRecorded s1 k' = lastRecorded s k'"
    and "isProvider s1 = isProvider s" and "paused s1 = paused s"
    and "cooldownSeconds s1 = cooldownSeconds s"
    and "isBatchClosed s1 = isBatchClosed s" and "currentBatchId s1 = currentBatchId s"
proof -
  from assms have cc: "checkCooldown e s (msg_sender e) (lastRecorded s k) = Inr ()"
    by (elim class_of_cases)
       (auto simp: depositTime_def withdrawTime_def requestBatchSummary_def split: sum.splits)
  then show "cooldown_passed e s (lastRecorded s k)"
    by (simp add: checkCooldown_Inr_iff)
  from assms show "isProvider s (msg_sender e)" and "\<not> paused s"
    and "lastRecorded s1 k = (lastRecorded s k)(msg_sender e := block_timestamp e)"
    and "isProvider s1 = isProvider s" and "paused s1 = paused s"
    and "cooldownSeconds s1 = cooldownSeconds s"
    and "isBatchClosed s1 = isBatchClosed s" and "currentBatchId s1 = currentBatchId s"
    by (elim class_of_cases;
        auto simp: depositTime_def withdrawTime_def requestBatchSummary_def guard_defs emit_def
                   Let_def split: sum.splits if_splits)+
  from assms show "lastRecorded s1 k' = lastRecorded s k'" if "k' \<noteq> k"
    using that
    by (elim class_of_cases; cases k';
        auto simp: depositTime_def withdrawTime_def requestBatchSummary_def guard_defs emit_def
                   Let_def split: sum.splits if_splits)
qed

lemma exec_class_limited:
  assumes "class_of c = Some k" and "isProvider s (msg_sender e)" and "\<not> paused s"
      and "checkCooldown e s (msg_sender e) (lastRecorded s k) = Inl err"
  shows "exec h s (e, c) = Inl err"
  using assms
  by (elim class_of_cases)
     (simp_all add: depositTime_def withdrawTime_def requestBatchSummary_def guard_defs)

lemma exec_class_not_limited:
  assumes "class_of c = Some k" and "cooldown_passed e s (lastRecorded s k)"
  shows "exec h s (e, c) \<noteq> Inl CooldownActive" and "exec h s (e, c) \<noteq> Inl Panic"
proof -
  from assms(2) have "checkCooldown e s (msg_sender e) (lastRecorded s k) = Inr ()"
    by (simp add: checkCooldown_Inr_iff)
  with assms(1) show "exec h s (e, c) \<noteq> Inl CooldownActive" and "exec h s (e, c) \<noteq> Inl Panic"
    by (elim class_of_cases;
        simp add: depositTime_def withdrawTime_def requestBatchSummary_def guard_defs Let_def
             split: sum.splits)+
qed

lemma exec_class_again:
  assumes "class_of c = Some k" and "exec h s (e, c) = Inr s1"
      and "msg_sender e2 = msg_sender e" and "cooldown_passed e2 s1 (lastRecorded s1 k)"
  shows "\<exists>s2. exec h s1 (e2, c) = Inr s2"
proof -
  note first = exec_class_Inr [OF assms(1,2)]
  from assms(4) have cc: "checkCooldown e2 s1 (msg_sender e2) (lastRecorded s1 k) = Inr ()"
    by (simp add: checkCooldown_Inr_iff)
  from assms(1,2) have batch:
    "k = Submission \<Longrightarrow> \<not> isBatchClosed s (currentBatchId s)"
    "\<And>b r. c = RequestBatchSummary b r \<Longrightarrow> isBatchClosed s b"
    by (elim class_of_cases;
        auto simp: depositTime_def withdrawTime_def requestBatchSummary_def
             split: sum.splits if_splits)+
  from assms(1) show ?thesis
  proof (cases rule: class_of_cases)
    case (1 n)
    with cc batch first(1,2,6,7,9,10) assms(3) show ?thesis
      by (simp add: depositTime_def guard_defs Let_def)
  next
    case (2 n)
    with cc batch first(1,2,6,7,9,10) assms(3) show ?thesis
      by (simp add: withdrawTime_def guard_defs Let_def)
  next
    case (3 b r)
    with cc batch first(1,2,6,7,9,10) assms(3) show ?thesis
      by (simp add: requestBatchSummary_def guard_defs Let_def)
  qed
qed

text \<open>
  Claim C7, as amended. Take a call \<open>c\<close> of cooldown class \<open>k\<close> (submission:
  \<open>depositTime\<close>, \<open>withdrawTime\<close>; disclosure: \<open>requestBatchSummary\<close>) by an account at time
  \<open>now\<close>. If the caller is a provider, the contract is not paused,
  \<open>lastRecorded + cooldownSeconds\<close> does not overflow and \<open>now\<close> is before it, the call
  fails with \<open>CooldownActive\<close> and records nothing. If \<open>now\<close> is not before
  \<open>lastRecorded + cooldownSeconds\<close>, the rate limiter lets the call through (it fails
  neither with \<open>CooldownActive\<close> nor with the overflow panic), and \<open>now\<close> is recorded as
  the account's last time of class \<open>k\<close>, the other class untouched, when the call is
  accepted. After an accepted call at \<open>now\<close>, a call of the same class by the same
  account earlier than \<open>now + cooldownSeconds\<close> is rejected by the limiter, and the same
  call at or after \<open>now + cooldownSeconds\<close> is accepted.
\<close>

theorem cooldown_check_and_record:
  assumes "class_of c = Some k"
  shows
    "(isProvider s (msg_sender e) \<and> \<not> paused s \<and>
        unat (lastRecorded s k (msg_sender e)) + unat (cooldownSeconds s) < 2 ^ 256 \<and>
        unat (block_timestamp e) <
          unat (lastRecorded s k (msg_sender e)) + unat (cooldownSeconds s) \<longrightarrow>
        exec h s (e, c) = Inl CooldownActive \<and> step h s (e, c) = s) \<and>
     (cooldown_passed e s (lastRecorded s k) \<longrightarrow>
        exec h s (e, c) \<noteq> Inl CooldownActive \<and> exec h s (e, c) \<noteq> Inl Panic) \<and>
     (exec h s (e, c) = Inr s1 \<longrightarrow>
        cooldown_passed e s (lastRecorded s k) \<and>
        lastRecorded s1 k = (lastRecorded s k)(msg_sender e := block_timestamp e) \<and>
        (\<forall>k'. k' \<noteq> k \<longrightarrow> lastRecorded s1 k' = lastRecorded s k') \<and>
        (msg_sender e2 = msg_sender e \<and> class_of c2 = Some k \<and>
           unat (block_timestamp e2) < unat (block_timestamp e) + unat (cooldownSeconds s) \<longrightarrow>
           exec h s1 (e2, c2) \<in> {Inl CooldownActive, Inl Panic}) \<and>
        (msg_sender e2 = msg_sender e \<and>
           unat (block_timestamp e) + unat (cooldownSeconds s) \<le> unat (block_timestamp e2) \<longrightarrow>
           (\<exists>s2. exec h s1 (e2, c) = Inr s2)))"
proof (intro conjI impI allI)
  assume a: "isProvider s (msg_sender e) \<and> \<not> paused s \<and>
        unat (lastRecorded s k (msg_sender e)) + unat (cooldownSeconds s) < 2 ^ 256 \<and>
        unat (block_timestamp e) <
          unat (lastRecorded s k (msg_sender e)) + unat (cooldownSeconds s)"
  then have "checkCooldown e s (msg_sender e) (lastRecorded s k) = Inl CooldownActive"
    by (simp add: checkCooldown_active_iff)
  with a show r: "exec h s (e, c) = Inl CooldownActive"
    by (intro exec_class_limited [OF assms]) simp_all
  then show "step h s (e, c) = s"
    by (simp add: step_def)
next
  assume "cooldown_passed e s (lastRecorded s k)"
  from exec_class_not_limited [OF assms this]
  show "exec h s (e, c) \<noteq> Inl CooldownActive" and "exec h s (e, c) \<noteq> Inl Panic" .
next
  assume ok: "exec h s (e, c) = Inr s1"
  note first = exec_class_Inr [OF assms ok]
  show "cooldown_passed e s (lastRecorded s k)" by (rule first(3))
  show "lastRecorded s1 k = (lastRecorded s k)(msg_sender e := block_timestamp e)"
    by (rule first(4))
  show "lastRecorded s1 k' = lastRecorded s k'" if "k' \<noteq> k" for k'
    using that by (rule first(5))
  show "exec h s1 (e2, c2) \<in> {Inl CooldownActive, Inl Panic}"
    if b: "msg_sender e2 = msg_sender e \<and> class_of c2 = Some k \<and>
           unat (block_timestamp e2) < unat (block_timestamp e) + unat (cooldownSeconds s)"
  proof -
    from b first(4,8) have "\<not> cooldown_passed e2 s1 (lastRecorded s1 k)"
      by (simp add: cooldown_passed_def)
    then have "checkCooldown e2 s1 (msg_sender e2) (lastRecorded s1 k) \<noteq> Inr ()"
      by (simp add: checkCooldown_Inr_iff)
    with checkCooldown_cases [of e2 s1 "msg_sender e2" "lastRecorded s1 k"]
    consider "checkCooldown e2 s1 (msg_sender e2) (lastRecorded s1 k) = Inl CooldownActive"
      | "checkCooldown e2 s1 (msg_sender e2) (lastRecorded s1 k) = Inl Panic"
      by blast
    then show ?thesis
    proof cases
      case 1
      from b first(1,2,6,7) have "isProvider s1 (msg_sender e2)" "\<not> paused s1" by simp_all
      from exec_class_limited [OF _ this 1, of c2 h] b show ?thesis by simp
    next
      case 2
      from b first(1,2,6,7) have "isProvider s1 (msg_sender e2)" "\<not> paused s1" by simp_all
      from exec_class_limited [OF _ this 2, of c2 h] b show ?thesis by simp
    qed
  qed
  show "\<exists>s2. exec h s1 (e2, c) = Inr s2"
    if b: "msg_sender e2 = msg_sender e \<and>
           unat (block_timestamp e) + unat (cooldownSeconds s) \<le> unat (block_timestamp e2)"
  proof -
    from b first(4,8) have "cooldown_passed e2 s1 (lastRecorded s1 k)"
      by (simp add: cooldown_passed_def)
    with exec_class_again [OF assms ok] b show ?thesis by blast
  qed
qed

theorem cooldown_check_and_record_witness:
  "depositTime test_host (at_time alice 10) fresh_ledger 3 = Inl CooldownActive \<and>
   (\<exists>s1. depositTime test_host (at_time alice 100) fresh_ledger 3 = Inr s1 \<and>
      lastSubmissionTime s1 = (lastSubmissionTime fresh_ledger)(alice := 100) \<and>
      withdrawTime test_host (at_time alice 120) s1 4 \<in> {Inl CooldownActive, Inl Panic} \<and>
      (\<exists>s2. depositTime test_host (at_time alice 160) s1 3 = Inr s2))"
proof -
  have cls: "class_of (DepositTime 3) = Some Submission" by simp
  note early = cooldown_check_and_record [OF cls, of fresh_ledger "at_time alice 10" test_host,
      THEN conjunct1, rule_format]
  have "isProvider fresh_ledger (msg_sender (at_time alice 10)) \<and> \<not> paused fresh_ledger \<and>
        unat (lastRecorded fresh_ledger Submission (msg_sender (at_time alice 10))) +
          unat (cooldownSeconds fresh_ledger) < 2 ^ 256 \<and>
        unat (block_timestamp (at_time alice 10)) <
          unat (lastRecorded fresh_ledger Submission (msg_sender (at_time alice 10))) +
          unat (cooldownSeconds fresh_ledger)"
    by (simp add: concrete_defs)
  from early [OF this]
  have a: "depositTime test_host (at_time alice 10) fresh_ledger 3 = Inl CooldownActive"
    by simp
  obtain s1 where s1: "exec test_host fresh_ledger (at_time alice 100, DepositTime 3) = Inr s1"
    by (auto simp: concrete_defs op_defs guard_defs)
  note later = cooldown_check_and_record [OF cls, of fresh_ledger "at_time alice 100"
      test_host s1, THEN conjunct2, THEN conjunct2, rule_format, OF s1]
  from later [of "at_time alice 120" "WithdrawTime 4", THEN conjunct2, THEN conjunct1]
  have b: "lastSubmissionTime s1 = (lastSubmissionTime fresh_ledger)(alice := 100)"
    by (simp add: at_time_def)
  have "msg_sender (at_time alice 120) = msg_sender (at_time alice 100) \<and>
      class_of (WithdrawTime 4) = Some Submission \<and>
      unat (block_timestamp (at_time alice 120)) <
        unat (block_timestamp (at_time alice 100)) + unat (cooldownSeconds fresh_ledger)"
    by (simp add: concrete_defs)
  from later [of "at_time alice 120" "WithdrawTime 4", THEN conjunct2, THEN conjunct2,
      THEN conjunct2, THEN conjunct1, rule_format, OF this]
  have c: "withdrawTime test_host (at_time alice 120) s1 4 \<in> {Inl CooldownActive, Inl Panic}"
    by simp
  have "msg_sender (at_time alice 160) = msg_sender (at_time alice 100) \<and>
      unat (block_timestamp (at_time alice 100)) + unat (cooldownSeconds fresh_ledger)
        \<le> unat (block_timestamp (at_time alice 160))"
    by (simp add: concrete_defs)
  from later [of "at_time alice 160" "WithdrawTime 4", THEN conjunct2, THEN conjunct2,
      THEN conjunct2, THEN conjunct2, rule_format, OF this]
  have d: "\<exists>s2. depositTime test_host (at_time alice 160) s1 3 = Inr s2"
    by simp
  from s1 have s1': "depositTime test_host (at_time alice 100) fresh_ledger 3 = Inr s1"
    by simp
  from a s1' b c d show ?thesis
    by - (rule conjI, assumption, rule exI [of _ s1], intro conjI; assumption)
qed

text \<open>
  The claim as stated fails in both halves. A provider whose cooldown has passed calls
  \<open>depositTime\<close> while the current batch is closed: the rate limiter lets the call
  through, the call reverts with \<open>BatchClosedError\<close>, and the caller's last time stays 70
  instead of becoming 200. An account that is not a provider calls inside the cooldown
  window: the call fails with \<open>NotProvider\<close>, not \<open>CooldownActive\<close>.
\<close>

theorem cooldown_pass_not_recorded:
  "cooldown_passed (at_time alice 200) closed_ledger (lastSubmissionTime closed_ledger) \<and>
   depositTime test_host (at_time alice 200) closed_ledger 3 = Inl BatchClosedError \<and>
   lastSubmissionTime (step test_host closed_ledger (at_time alice 200, DepositTime 3)) alice
     = 70 \<and>
   unat (block_timestamp (at_time bob 10)) <
     unat (lastSubmissionTime fresh_ledger bob) + unat (cooldownSeconds fresh_ledger) \<and>
   depositTime test_host (at_time bob 10) fresh_ledger 3 = Inl NotProvider"
  by (simp add: concrete_defs op_defs guard_defs cooldown_passed_def)

subsection \<open>Requesting a batch summary\<close>

text \<open>
  Claim C9. \<open>requestBatchSummary\<close> goes through only when the caller is a provider, the
  contract is not paused, the disclosure cooldown has passed and the batch is closed.
  On a batch that is not closed (the open current batch among them) the call never
  goes through and the state stays as it was; with the other three conditions met it
  fails with \<open>BatchNotClosed\<close>.
\<close>

theorem requestBatchSummary_needs_closed_batch:
  "(requestBatchSummary h e s b r = Inr s' \<longrightarrow>
      isProvider s (msg_sender e) \<and> \<not> paused s \<and>
      cooldown_passed e s (lastDecryptionRequestTime s) \<and> isBatchClosed s b) \<and>
   (\<not> isBatchClosed s b \<longrightarrow>
      (\<exists>err. requestBatchSummary h e s b r = Inl err) \<and>
      step h s (e, RequestBatchSummary b r) = s) \<and>
   (isProvider s (msg_sender e) \<and> \<not> paused s \<and>
      cooldown_passed e s (lastDecryptionRequestTime s) \<and> \<not> isBatchClosed s b \<longrightarrow>
      requestBatchSummary h e s b r = Inl BatchNotClosed) \<and>
   (isProvider s (msg_sender e) \<and> \<not> paused s \<and>
      cooldown_passed e s (lastDecryptionRequestTime s) \<and> isOpen s b \<longrightarrow>
      requestBatchSummary h e s b r = Inl BatchNotClosed)"
  using checkCooldown_Inr_iff [of e s "lastDecryptionRequestTime s" "()"]
  by (auto simp: requestBatchSummary_def step_def guard_defs isOpen_def Let_def
           split: sum.splits if_splits)

theorem requestBatchSummary_needs_closed_batch_witness:
  "(\<exists>t. requestBatchSummary test_host (at_time alice 100) closed_ledger 1 7 = Inr t) \<and>
   isProvider closed_ledger alice \<and> \<not> paused closed_ledger \<and>
   cooldown_passed (at_time alice 100) closed_ledger (lastDecryptionRequestTime closed_ledger) \<and>
   isBatchClosed closed_ledger 1 \<and>
   isOpen fresh_ledger 1 \<and>
   requestBatchSummary test_host (at_time alice 100) fresh_ledger 1 7 = Inl BatchNotClosed \<and>
   step test_host fresh_ledger (at_time alice 100, RequestBatchSummary 1 7) = fresh_ledger"
proof -
  note closed_case =
    requestBatchSummary_needs_closed_batch [of test_host "at_time alice 100" closed_ledger 1 7]
  note open_case =
    requestBatchSummary_needs_closed_batch [of test_host "at_time alice 100" fresh_ledger 1 7]
  obtain t where t: "requestBatchSummary test_host (at_time alice 100) closed_ledger 1 7 = Inr t"
    by (auto simp: concrete_defs op_defs guard_defs)
  have sender: "msg_sender (at_time alice 100) = alice"
    by (simp add: at_time_def)
  from closed_case [of t, THEN conjunct1, rule_format, OF t]
  have ok: "isProvider closed_ledger alice \<and> \<not> paused closed_ledger \<and>
      cooldown_passed (at_time alice 100) closed_ledger (lastDecryptionRequestTime closed_ledger)
      \<and> isBatchClosed closed_ledger 1"
    unfolding sender .
  have pre: "isProvider fresh_ledger (msg_sender (at_time alice 100)) \<and> \<not> paused fresh_ledger \<and>
      cooldown_passed (at_time alice 100) fresh_ledger (lastDecryptionRequestTime fresh_ledger)
      \<and> isOpen fresh_ledger 1"
    by (simp add: concrete_defs cooldown_passed_def isOpen_def)
  then have opn: "isOpen fresh_ledger 1" and nc: "\<not> isBatchClosed fresh_ledger 1"
    by (simp_all add: isOpen_def)
  from open_case [THEN conjunct2, THEN conjunct2, THEN conjunct2, rule_format, OF pre]
  have r1: "requestBatchSummary test_host (at_time alice 100) fresh_ledger 1 7 = Inl BatchNotClosed" .
  from open_case [THEN conjunct2, THEN conjunct1, rule_format, OF nc]
  have r2: "step test_host fresh_ledger (at_time alice 100, RequestBatchSummary 1 7) = fresh_ledger"
    by (rule conjunct2)
  from t have ex: "\<exists>t. requestBatchSummary test_host (at_time alice 100) closed_ledger 1 7 = Inr t"
    by (rule exI)
  from ex ok opn r1 r2 show ?thesis
    by (elim conjE) (intro conjI; assumption)
qed

text \<open>
  Claim C5. Any two calls of \<open>requestBatchSummary\<close> that go through store the same
  \<open>stateHash\<close>, whatever the two states, callers, batch ids and request ids are: it is
  the hash of the array built from the zero-initialised locals and of the contract's
  address, a value that depends on the host alone.
\<close>

theorem stateHash_same_for_every_request:
  assumes "requestBatchSummary h e1 s1 b1 r1 = Inr t1"
      and "requestBatchSummary h e2 s2 b2 r2 = Inr t2"
  shows "stateHash (decryptionContexts t1 r1) = stateHash (decryptionContexts t2 r2) \<and>
         stateHash (decryptionContexts t1 r1) = keccak256_encode h (request_cts h) (this h)"
  using assms
  by (auto simp: requestBatchSummary_def emit_def hashCiphertexts_def Let_def
           split: sum.splits if_splits)

theorem stateHash_same_for_every_request_witness:
  "\<exists>t1 t2. requestBatchSummary test_host (at_time alice 100) closed_ledger 1 7 = Inr t1 \<and>
     requestBatchSummary test_host (at_time alice 200) second_closed_ledger 2 8 = Inr t2 \<and>
     stateHash (decryptionContexts t1 7) = stateHash (decryptionContexts t2 8)"
proof -
  obtain t1 where a:
    "requestBatchSummary test_host (at_time alice 100) closed_ledger 1 7 = Inr t1"
    by (auto simp: concrete_defs op_defs guard_defs)
  obtain t2 where b:
    "requestBatchSummary test_host (at_time alice 200) second_closed_ledger 2 8 = Inr t2"
    by (auto simp: concrete_defs op_defs guard_defs)
  from stateHash_same_for_every_request [OF a b] a b show ?thesis by blast
qed

subsection \<open>The commitment check of the callback\<close>

lemma exec_processed_matches:
  assumes inv: "\<And>r. processed (decryptionContexts s r) \<Longrightarrow>
             stateHash (decryptionContexts s r) = hashCiphertexts h (callback_cts h)"
      and ex: "exec h s tx = Inr s'"
      and pr: "processed (decryptionContexts s' q)"
  shows "stateHash (decryptionContexts s' q) = hashCiphertexts h (callback_cts h)"
proof (cases tx)
  case (Pair e c)
  consider (request) b r where "c = RequestBatchSummary b r"
    | (callback) r cl p where "c = MyCallback r cl p"
    | (other) "\<And>b r. c \<noteq> RequestBatchSummary b r" "\<And>r cl p. c \<noteq> MyCallback r cl p"
    by (cases c) auto
  then show ?thesis
  proof cases
    case request
    with ex Pair have "decryptionContexts s' = (decryptionContexts s)
           (r := \<lparr> batchId = b, stateHash = hashCiphertexts h (request_cts h),
                   processed = False \<rparr>)"
      by (intro exec_request_effect(1)) simp
    with pr inv [of q] show ?thesis
      by (cases "q = r") simp_all
  next
    case callback
    with ex Pair have cb: "exec h s (e, MyCallback r cl p) = Inr s'" by simp
    from exec_callback_effect(2,5) [OF cb] pr inv [of q] show ?thesis
      by (cases "q = r") simp_all
  next
    case other
    from ex Pair have "exec h s (e, c) = Inr s'" by simp
    from exec_other_effect(1) [OF this other] pr inv [of q] show ?thesis
      by simp
  qed
qed

lemma run_processed_matches:
  assumes "\<And>r. processed (decryptionContexts s r) \<Longrightarrow>
             stateHash (decryptionContexts s r) = hashCiphertexts h (callback_cts h)"
      and "processed (decryptionContexts (run h s txs) q)"
  shows "stateHash (decryptionContexts (run h s txs) q) = hashCiphertexts h (callback_cts h)"
  using assms unfolding run_def
proof (induction txs arbitrary: s)
  case Nil
  then show ?case by simp
next
  case (Cons tx txs)
  have "stateHash (decryptionContexts (step h s tx) r) = hashCiphertexts h (callback_cts h)"
    if "processed (decryptionContexts (step h s tx) r)" for r
  proof (cases "exec h s tx")
    case (Inl err)
    with Cons.prems(1) [of r] that show ?thesis by (simp add: step_def)
  next
    case (Inr s1)
    with that have "processed (decryptionContexts s1 r)" by (simp add: step_def)
    from exec_processed_matches [OF Cons.prems(1) Inr this] Inr show ?thesis
      by (simp add: step_def)
  qed
  from Cons.IH [OF this] Cons.prems(2) show ?case by simp
qed

lemma request_cts_explicit:
  assumes "\<not> isInitialized h 0"
  shows "request_cts h =
    [toBytes32 h (fhe_add h (asEuint32 h 0) (asEuint32 h 0)), toBytes32 h (asEuint32 h 0)]"
  using assms by (simp add: request_cts_def request_totals_def)

lemma callback_cts_explicit:
  assumes "\<not> isInitialized h 0"
  shows "callback_cts h = [toBytes32 h (fhe_add h 0 (asEuint32 h 0)), toBytes32 h 0]"
  using assms by (simp add: callback_cts_def callback_totals_def)

lemma exec_never_completes:
  assumes ne: "hashCiphertexts h (request_cts h) \<noteq> hashCiphertexts h (callback_cts h)"
      and nz: "hashCiphertexts h (callback_cts h) \<noteq> 0"
      and inv: "\<And>r. stateHash (decryptionContexts s r) = 0 \<or>
                   stateHash (decryptionContexts s r) = hashCiphertexts h (request_cts h)"
      and ex: "exec h s tx = Inr s'"
  shows "stateHash (decryptionContexts s' q) = 0 \<or>
         stateHash (decryptionContexts s' q) = hashCiphertexts h (request_cts h)"
proof (cases tx)
  case (Pair e c)
  consider (request) b r where "c = RequestBatchSummary b r"
    | (callback) r cl p where "c = MyCallback r cl p"
    | (other) "\<And>b r. c \<noteq> RequestBatchSummary b r" "\<And>r cl p. c \<noteq> MyCallback r cl p"
    by (cases c) auto
  then show ?thesis
  proof cases
    case request
    with ex Pair have "decryptionContexts s' = (decryptionContexts s)
           (r := \<lparr> batchId = b, stateHash = hashCiphertexts h (request_cts h),
                   processed = False \<rparr>)"
      by (intro exec_request_effect(1)) simp
    with inv [of q] show ?thesis
      by (cases "q = r") simp_all
  next
    case callback
    with ex Pair have cb: "exec h s (e, MyCallback r cl p) = Inr s'" by simp
    from exec_callback_effect(2) [OF cb] inv [of r] ne nz have False by auto
    then show ?thesis ..
  next
    case other
    from ex Pair have "exec h s (e, c) = Inr s'" by simp
    from exec_other_effect(1) [OF this other] inv [of q] show ?thesis
      by simp
  qed
qed

lemma run_never_completes:
  assumes "hashCiphertexts h (request_cts h) \<noteq> hashCiphertexts h (callback_cts h)"
      and "hashCiphertexts h (callback_cts h) \<noteq> 0"
      and "\<And>r. stateHash (decryptionContexts s r) = 0 \<or>
                   stateHash (decryptionContexts s r) = hashCiphertexts h (request_cts h)"
  shows "stateHash (decryptionContexts (run h s txs) q) = 0 \<or>
         stateHash (decryptionContexts (run h s txs) q) = hashCiphertexts h (request_cts h)"
  using assms(3) unfolding run_def
proof (induction txs arbitrary: s)
  case Nil
  then show ?case by simp
next
  case (Cons tx txs)
  have "stateHash (decryptionContexts (step h s tx) r) = 0 \<or>
      stateHash (decryptionContexts (step h s tx) r) = hashCiphertexts h (request_cts h)" for r
  proof (cases "exec h s tx")
    case (Inl err)
    with Cons.prems [of r] show ?thesis by (simp add: step_def)
  next
    case (Inr s1)
    from exec_never_completes [OF assms(1,2) Cons.prems Inr, of r] Inr show ?thesis
      by (simp add: step_def)
  qed
  from Cons.IH [OF this] show ?case by simp
qed

text \<open>
  Claim C4. The request side and the check itself are as the claim says: a
  \<open>requestBatchSummary\<close> that goes through stores the hash of the two-element array
  \<open>[totalDeposits, totalWithdrawals]\<close>, in that order, and of the contract's own
  address, and in every state reached from deployment the callback fails with
  \<open>StateMismatchError\<close> whenever the hash it recomputes differs from the stored one,
  whatever the cleartexts and the proof are: the comparison comes before the
  signature check. But the callback does not re-derive the array that was hashed. On a
  host where the zero handle is uninitialised, the request hashes
  \<open>[add(enc 0, enc 0), enc 0]\<close>, the callback hashes \<open>[add(0, enc 0), 0]\<close>, the two
  locals left as declared. So where the hash tells these two arrays apart, the
  callback of a request just made fails with \<open>StateMismatchError\<close> though nothing has
  changed, and where the recomputed hash is moreover not the zero word, every callback
  in every reachable state does.
\<close>

theorem callback_rebuilds_other_array:
  assumes "s = run h (constructor d) txs" and "\<not> isInitialized h 0"
  shows "(requestBatchSummary h e s b r = Inr s1 \<longrightarrow>
            stateHash (decryptionContexts s1 r) =
              keccak256_encode h
                [toBytes32 h (fhe_add h (asEuint32 h 0) (asEuint32 h 0)),
                 toBytes32 h (asEuint32 h 0)] (this h)) \<and>
         (keccak256_encode h [toBytes32 h (fhe_add h 0 (asEuint32 h 0)), toBytes32 h 0] (this h)
            \<noteq> stateHash (decryptionContexts s q) \<longrightarrow>
            myCallback h s q c p = Inl StateMismatchError) \<and>
         (keccak256_encode h
            [toBytes32 h (fhe_add h (asEuint32 h 0) (asEuint32 h 0)),
             toBytes32 h (asEuint32 h 0)] (this h) \<noteq>
          keccak256_encode h [toBytes32 h (fhe_add h 0 (asEuint32 h 0)), toBytes32 h 0] (this h)
          \<and> requestBatchSummary h e s b r = Inr s1 \<longrightarrow>
            myCallback h s1 r c p = Inl StateMismatchError) \<and>
         (keccak256_encode h
            [toBytes32 h (fhe_add h (asEuint32 h 0) (asEuint32 h 0)),
             toBytes32 h (asEuint32 h 0)] (this h) \<noteq>
          keccak256_encode h [toBytes32 h (fhe_add h 0 (asEuint32 h 0)), toBytes32 h 0] (this h)
          \<and> keccak256_encode h [toBytes32 h (fhe_add h 0 (asEuint32 h 0)), toBytes32 h 0] (this h)
            \<noteq> 0 \<longrightarrow>
            myCallback h s q c p = Inl StateMismatchError)"
proof -
  have req: "hashCiphertexts h (request_cts h) =
      keccak256_encode h
        [toBytes32 h (fhe_add h (asEuint32 h 0) (asEuint32 h 0)), toBytes32 h (asEuint32 h 0)]
        (this h)"
    by (simp add: hashCiphertexts_def request_cts_explicit [OF assms(2)])
  have cb: "hashCiphertexts h (callback_cts h) =
      keccak256_encode h [toBytes32 h (fhe_add h 0 (asEuint32 h 0)), toBytes32 h 0] (this h)"
    by (simp add: hashCiphertexts_def callback_cts_explicit [OF assms(2)])
  have init: "stateHash (decryptionContexts (constructor d) r) = hashCiphertexts h (callback_cts h)"
    if "processed (decryptionContexts (constructor d) r)" for r
    using that by (simp add: constructor_def)
  have inv: "stateHash (decryptionContexts s q) = hashCiphertexts h (callback_cts h)"
    if "processed (decryptionContexts s q)"
    using that unfolding assms(1) by (intro run_processed_matches init)
  have mismatch: "myCallback h s q c p = Inl StateMismatchError"
    if ne: "hashCiphertexts h (callback_cts h) \<noteq> stateHash (decryptionContexts s q)"
  proof -
    have "\<not> processed (decryptionContexts s q)"
    proof
      assume "processed (decryptionContexts s q)"
      from inv [OF this] ne show False by simp
    qed
    with ne show ?thesis by (simp add: myCallback_def Let_def)
  qed
  show ?thesis
  proof (intro conjI impI)
    assume "requestBatchSummary h e s b r = Inr s1"
    from request_stores_commitment [OF this] req
    show "stateHash (decryptionContexts s1 r) =
      keccak256_encode h
        [toBytes32 h (fhe_add h (asEuint32 h 0) (asEuint32 h 0)), toBytes32 h (asEuint32 h 0)]
        (this h)"
      by simp
  next
    assume "keccak256_encode h [toBytes32 h (fhe_add h 0 (asEuint32 h 0)), toBytes32 h 0] (this h)
        \<noteq> stateHash (decryptionContexts s q)"
    with cb show "myCallback h s q c p = Inl StateMismatchError"
      by (intro mismatch) simp
  next
    assume a: "keccak256_encode h
            [toBytes32 h (fhe_add h (asEuint32 h 0) (asEuint32 h 0)),
             toBytes32 h (asEuint32 h 0)] (this h) \<noteq>
          keccak256_encode h [toBytes32 h (fhe_add h 0 (asEuint32 h 0)), toBytes32 h 0] (this h)
          \<and> requestBatchSummary h e s b r = Inr s1"
    then have ok: "requestBatchSummary h e s b r = Inr s1" by simp
    from a have "hashCiphertexts h (request_cts h) \<noteq> hashCiphertexts h (callback_cts h)"
      unfolding req cb by (rule conjunct1)
    then have "hashCiphertexts h (callback_cts h) \<noteq> hashCiphertexts h (request_cts h)"
      by (rule not_sym)
    with request_stores_commitment [OF ok] show "myCallback h s1 r c p = Inl StateMismatchError"
      by (simp add: myCallback_def Let_def)
  next
    assume a: "keccak256_encode h
            [toBytes32 h (fhe_add h (asEuint32 h 0) (asEuint32 h 0)),
             toBytes32 h (asEuint32 h 0)] (this h) \<noteq>
          keccak256_encode h [toBytes32 h (fhe_add h 0 (asEuint32 h 0)), toBytes32 h 0] (this h)
          \<and> keccak256_encode h [toBytes32 h (fhe_add h 0 (asEuint32 h 0)), toBytes32 h 0] (this h)
            \<noteq> 0"
    then have ne: "hashCiphertexts h (request_cts h) \<noteq> hashCiphertexts h (callback_cts h)"
      and nz: "hashCiphertexts h (callback_cts h) \<noteq> 0"
      unfolding req cb by (rule conjunct1, rule conjunct2)
    have start: "stateHash (decryptionContexts (constructor d) r) = 0 \<or>
        stateHash (decryptionContexts (constructor d) r) = hashCiphertexts h (request_cts h)" for r
      by (simp add: constructor_def)
    from run_never_completes [OF ne nz start, of txs q] assms(1) ne nz
    have "hashCiphertexts h (callback_cts h) \<noteq> stateHash (decryptionContexts s q)"
      by auto
    then show "myCallback h s q c p = Inl StateMismatchError" by (rule mismatch)
  qed
qed

text \<open>
  On the second host: alice deposits 3 hours, closes batch 1 and requests its summary
  under request id 7. The request stores the hash of \<open>[1, 1]\<close>; the callback, given
  8 bytes of cleartext and a proof that verifies, recomputes the hash of \<open>[1, 0]\<close> and
  reverts.
\<close>

theorem callback_rebuilds_other_array_witness:
  "tagged_closed_ledger = run tagged_host (constructor (at_time alice 0))
      [(at_time alice 70, DepositTime 3), (at_time alice 80, CloseCurrentBatch)] \<and>
   \<not> isInitialized tagged_host 0 \<and>
   request_cts tagged_host = [1, 1] \<and> callback_cts tagged_host = [1, 0] \<and>
   checkSignatures tagged_host 7 [0, 0, 0, 3, 0, 0, 0, 0] [1] \<and>
   (\<exists>s1. requestBatchSummary tagged_host (at_time alice 100) tagged_closed_ledger 1 7 = Inr s1 \<and>
      stateHash (decryptionContexts s1 7) = 3936289 \<and>
      myCallback tagged_host s1 7 [0, 0, 0, 3, 0, 0, 0, 0] [1] = Inl StateMismatchError) \<and>
   myCallback tagged_host tagged_closed_ledger 9 [0, 0, 0, 3, 0, 0, 0, 0] [1]
     = Inl StateMismatchError"
proof -
  have re: "tagged_closed_ledger = run tagged_host (constructor (at_time alice 0))
      [(at_time alice 70, DepositTime 3), (at_time alice 80, CloseCurrentBatch)]"
    by (simp add: tagged_closed_ledger_def)
  have ni: "\<not> isInitialized tagged_host 0"
    by (simp add: tagged_host_def)
  have arrays: "request_cts tagged_host = [1, 1]" "callback_cts tagged_host = [1, 0]"
    by (simp_all add: tagged_host_def request_cts_def request_totals_def callback_cts_def
          callback_totals_def)
  have sg: "checkSignatures tagged_host 7 [0, 0, 0, 3, 0, 0, 0, 0] [1]"
    by (simp add: tagged_host_def)
  have committed: "keccak256_encode tagged_host
      [toBytes32 tagged_host (fhe_add tagged_host (asEuint32 tagged_host 0)
         (asEuint32 tagged_host 0)), toBytes32 tagged_host (asEuint32 tagged_host 0)]
      (this tagged_host) = 3936289"
    and recomputed: "keccak256_encode tagged_host
      [toBytes32 tagged_host (fhe_add tagged_host 0 (asEuint32 tagged_host 0)),
       toBytes32 tagged_host 0] (this tagged_host) = 3936288"
    by (simp_all add: tagged_host_def)
  obtain s1 where s1:
    "requestBatchSummary tagged_host (at_time alice 100) tagged_closed_ledger 1 7 = Inr s1"
    by (auto simp: concrete_defs tagged_host_def op_defs guard_defs)
  note inst = callback_rebuilds_other_array [OF re ni,
      of "at_time alice 100" 1 7 s1 _ "[0, 0, 0, 3, 0, 0, 0, 0]" "[1]"]
  from inst [THEN conjunct1, rule_format, OF s1]
  have a: "stateHash (decryptionContexts s1 7) = 3936289"
    unfolding committed .
  have differ: "keccak256_encode tagged_host
      [toBytes32 tagged_host (fhe_add tagged_host (asEuint32 tagged_host 0)
         (asEuint32 tagged_host 0)), toBytes32 tagged_host (asEuint32 tagged_host 0)]
      (this tagged_host) \<noteq>
      keccak256_encode tagged_host
      [toBytes32 tagged_host (fhe_add tagged_host 0 (asEuint32 tagged_host 0)),
       toBytes32 tagged_host 0] (this tagged_host)"
    unfolding committed recomputed by simp
  have nonzero: "keccak256_encode tagged_host
      [toBytes32 tagged_host (fhe_add tagged_host 0 (asEuint32 tagged_host 0)),
       toBytes32 tagged_host 0] (this tagged_host) \<noteq> 0"
    unfolding recomputed by simp
  from inst [THEN conjunct2, THEN conjunct2, THEN conjunct1, rule_format,
      OF conjI [OF differ s1]]
  have b: "myCallback tagged_host s1 7 [0, 0, 0, 3, 0, 0, 0, 0] [1] = Inl StateMismatchError" .
  from inst [of 9, THEN conjunct2, THEN conjunct2, THEN conjunct2, rule_format,
      OF conjI [OF differ nonzero]]
  have c: "myCallback tagged_host tagged_closed_ledger 9 [0, 0, 0, 3, 0, 0, 0, 0] [1]
     = Inl StateMismatchError" .
  from s1 a b have "\<exists>s1.
      requestBatchSummary tagged_host (at_time alice 100) tagged_closed_ledger 1 7 = Inr s1 \<and>
      stateHash (decryptionContexts s1 7) = 3936289 \<and>
      myCallback tagged_host s1 7 [0, 0, 0, 3, 0, 0, 0, 0] [1] = Inl StateMismatchError"
    by (intro exI [of _ s1] conjI)
  with re ni arrays sg c show ?thesis
    by - (intro conjI; assumption)
qed

subsection \<open>Replay protection of the callback\<close>

lemma consistent_request:
  assumes "requests_consistent s issued" and "exec h s (e, RequestBatchSummary b r) = Inr s'"
      and "r \<notin> set issued"
  shows "requests_consistent s' (r # issued)"
proof -
  note eff = exec_request_effect [OF assms(2)]
  from assms(1,3) have "\<not> processed (decryptionContexts s r)"
    by (simp add: requests_consistent_def)
  with assms(1) show ?thesis
    by (simp add: requests_consistent_def eff)
qed

lemma consistent_callback:
  assumes "hashCiphertexts h (callback_cts h) \<noteq> 0"
      and "requests_consistent s issued" and "exec h s (e, MyCallback r c p) = Inr s'"
  shows "requests_consistent s' issued"
proof -
  note eff = exec_callback_effect [OF assms(3)]
  from eff(2) assms(1) have "stateHash (decryptionContexts s r) \<noteq> 0" by simp
  with assms(2) have "r \<in> set issued"
    by (auto simp: requests_consistent_def)
  with assms(2) eff(1) show ?thesis
    by (auto simp: requests_consistent_def eff(5,6))
qed

lemma consistent_other:
  assumes "requests_consistent s issued" and "exec h s (e, c) = Inr s'"
      and "\<And>b r. c \<noteq> RequestBatchSummary b r" and "\<And>r cl p. c \<noteq> MyCallback r cl p"
  shows "requests_consistent s' issued"
  using assms(1) exec_other_effect [OF assms(2,3,4)]
  by (simp add: requests_consistent_def)

lemma oracle_fresh_Cons_other:
  assumes "exec h s (e, c) = Inr s'" and "\<And>b r. c \<noteq> RequestBatchSummary b r"
  shows "oracle_fresh h s issued ((e, c) # txs) = oracle_fresh h s' issued txs"
proof (cases c)
  case (RequestBatchSummary b r)
  with assms(2) show ?thesis by blast
qed (use assms(1) in simp_all)

lemma fresh_step:
  assumes h0: "hashCiphertexts h (callback_cts h) \<noteq> 0"
      and inv: "requests_consistent s issued"
      and fr: "oracle_fresh h s issued (tx # txs)"
  shows "\<exists>issued'. requests_consistent (step h s tx) issued' \<and>
           oracle_fresh h (step h s tx) issued' txs \<and>
           (\<forall>q. processed (decryptionContexts s q) \<longrightarrow>
                processed (decryptionContexts (step h s tx) q))"
proof (cases "exec h s tx")
  case (Inl err)
  with inv fr show ?thesis
    by (auto simp: step_def)
next
  case (Inr s')
  obtain e c where tx: "tx = (e, c)" by (cases tx)
  from Inr have st: "step h s tx = s'" by (simp add: step_def)
  consider (request) b r where "c = RequestBatchSummary b r"
    | (callback) r cl p where "c = MyCallback r cl p"
    | (other) "\<And>b r. c \<noteq> RequestBatchSummary b r" "\<And>r cl p. c \<noteq> MyCallback r cl p"
    by (cases c) auto
  then show ?thesis
  proof cases
    case request
    with Inr tx have ex: "exec h s (e, RequestBatchSummary b r) = Inr s'" by simp
    from fr tx request ex have f: "r \<notin> set issued" "oracle_fresh h s' (r # issued) txs"
      by simp_all
    from inv f(1) have np: "\<not> processed (decryptionContexts s r)"
      by (simp add: requests_consistent_def)
    have "processed (decryptionContexts s' q)" if "processed (decryptionContexts s q)" for q
    proof -
      from that np have "q \<noteq> r" by auto
      with that show ?thesis by (simp add: exec_request_effect(1) [OF ex])
    qed
    with consistent_request [OF inv ex f(1)] f(2) st show ?thesis by blast
  next
    case callback
    with Inr tx have ex: "exec h s (e, MyCallback r cl p) = Inr s'" by simp
    from Inr tx have ex0: "exec h s (e, c) = Inr s'" by simp
    from callback have nr: "\<And>b r. c \<noteq> RequestBatchSummary b r" by simp
    from fr have f: "oracle_fresh h s' issued txs"
      unfolding tx by (simp only: oracle_fresh_Cons_other [OF ex0 nr])
    have "processed (decryptionContexts s' q)" if "processed (decryptionContexts s q)" for q
      using that by (simp add: exec_callback_effect(5) [OF ex])
    with consistent_callback [OF h0 inv ex] f st show ?thesis by blast
  next
    case other
    from Inr tx have ex: "exec h s (e, c) = Inr s'" by simp
    from fr have f: "oracle_fresh h s' issued txs"
      unfolding tx by (simp only: oracle_fresh_Cons_other [OF ex other(1)])
    have "processed (decryptionContexts s' q)" if "processed (decryptionContexts s q)" for q
      using that by (simp add: exec_other_effect(1) [OF ex other])
    with consistent_other [OF inv ex other] f st show ?thesis by blast
  qed
qed

lemma fresh_run:
  assumes "hashCiphertexts h (callback_cts h) \<noteq> 0"
      and "requests_consistent s issued"
      and "oracle_fresh h s issued (txs @ txs')"
  shows "\<exists>issued'. requests_consistent (run h s txs) issued' \<and>
           oracle_fresh h (run h s txs) issued' txs' \<and>
           (\<forall>q. processed (decryptionContexts s q) \<longrightarrow>
                processed (decryptionContexts (run h s txs) q))"
  using assms(2,3)
proof (induction txs arbitrary: s issued)
  case Nil
  then show ?case by (auto simp: run_def)
next
  case (Cons tx txs)
  from Cons.prems(2) have "oracle_fresh h s issued (tx # (txs @ txs'))" by simp
  from fresh_step [OF assms(1) Cons.prems(1) this]
  obtain issued1 where one: "requests_consistent (step h s tx) issued1"
      "oracle_fresh h (step h s tx) issued1 (txs @ txs')"
      "\<And>q. processed (decryptionContexts s q) \<Longrightarrow>
            processed (decryptionContexts (step h s tx) q)"
    by blast
  from Cons.IH [OF one(1,2)]
  obtain issued2 where two: "requests_consistent (run h (step h s tx) txs) issued2"
      "oracle_fresh h (run h (step h s tx) txs) issued2 txs'"
      "\<And>q. processed (decryptionContexts (step h s tx) q) \<Longrightarrow>
            processed (decryptionContexts (run h (step h s tx) txs) q)"
    by blast
  have "run h s (tx # txs) = run h (step h s tx) txs"
    by (simp add: run_def)
  with two one(3) show ?case by auto
qed

lemma constructor_consistent: "requests_consistent (constructor d) []"
  by (simp add: requests_consistent_def constructor_def completions_def)

text \<open>
  Claim C3. Take any history from deployment in which the oracle answers each
  accepted request with an id it has not issued before, on a host whose commitment
  hash of the callback's array is not the zero word (the \<open>stateHash\<close> of a context that
  was never written). Then for every request id: once its context is processed, every
  callback for it fails with \<open>ReplayError\<close> and the context stays processed in all
  later states; a callback that goes through finds the flag false and leaves it true;
  and the log never holds more than one \<open>DecryptionCompleted\<close> event for the id (one
  exactly when the context is processed).
\<close>

theorem callback_at_most_once:
  assumes "hashCiphertexts h (callback_cts h) \<noteq> 0"
      and "oracle_fresh h (constructor d) [] (txs @ txs')"
      and "s = run h (constructor d) txs"
  shows "(processed (decryptionContexts s r) \<longrightarrow>
            myCallback h s r c p = Inl ReplayError \<and>
            processed (decryptionContexts (run h s txs') r)) \<and>
         (myCallback h s r c p = Inr s1 \<longrightarrow>
            \<not> processed (decryptionContexts s r) \<and> processed (decryptionContexts s1 r) \<and>
            completions s r = 0 \<and> completions s1 r = 1) \<and>
         completions s r = (if processed (decryptionContexts s r) then 1 else 0) \<and>
         completions s r \<le> 1 \<and> completions (run h s txs') r \<le> 1"
proof -
  from fresh_run [OF assms(1) constructor_consistent assms(2)] assms(3)
  obtain issued where now: "requests_consistent s issued" "oracle_fresh h s issued txs'"
    by blast
  from fresh_run [OF assms(1) now(1), of txs' "[]"] now(2)
  obtain issued' where later: "requests_consistent (run h s txs') issued'"
      "\<And>q. processed (decryptionContexts s q) \<Longrightarrow>
            processed (decryptionContexts (run h s txs') q)"
    by auto
  from now(1) have cnt: "completions s r = (if processed (decryptionContexts s r) then 1 else 0)"
    by (simp add: requests_consistent_def)
  from later(1) have cnt': "completions (run h s txs') r \<le> 1"
    by (simp add: requests_consistent_def)
  have replay: "myCallback h s r c p = Inl ReplayError" if "processed (decryptionContexts s r)"
    using that by (simp add: myCallback_def)
  have once: "\<not> processed (decryptionContexts s r) \<and> processed (decryptionContexts s1 r) \<and>
            completions s r = 0 \<and> completions s1 r = 1"
    if "myCallback h s r c p = Inr s1"
  proof -
    from that have ex: "exec h s (e, MyCallback r c p) = Inr s1" for e by simp
    note eff = exec_callback_effect [OF ex]
    from eff(1) cnt have "completions s r = 0" by simp
    with eff(1) eff(6) [of r] show ?thesis by (simp add: eff(5))
  qed
  show ?thesis
  proof (intro conjI impI)
    assume pr: "processed (decryptionContexts s r)"
    then show "myCallback h s r c p = Inl ReplayError" by (rule replay)
    from pr show "processed (decryptionContexts (run h s txs') r)" by (rule later(2))
  next
    assume ok: "myCallback h s r c p = Inr s1"
    from once [OF ok] show "\<not> processed (decryptionContexts s r)"
      and "processed (decryptionContexts s1 r)"
      and "completions s r = 0" and "completions s1 r = 1"
      by simp_all
  next
    show "completions s r = (if processed (decryptionContexts s r) then 1 else 0)"
      by (rule cnt)
    then show "completions s r \<le> 1" by simp
    show "completions (run h s txs') r \<le> 1" by (rule cnt')
  qed
qed

theorem callback_at_most_once_witness:
  "hashCiphertexts test_host (callback_cts test_host) \<noteq> 0 \<and>
   oracle_fresh test_host (constructor (at_time alice 0)) []
     (disclosure_history @ later_history) \<and>
   completed_ledger = run test_host (constructor (at_time alice 0)) disclosure_history \<and>
   processed (decryptionContexts completed_ledger 7) \<and>
   myCallback test_host completed_ledger 7 [0, 0, 0, 9, 0, 0, 0, 0] [1] = Inl ReplayError \<and>
   processed (decryptionContexts (run test_host completed_ledger later_history) 7) \<and>
   completions completed_ledger 7 = 1 \<and>
   completions (run test_host completed_ledger later_history) 7 \<le> 1"
proof -
  have h0: "hashCiphertexts test_host (callback_cts test_host) \<noteq> 0"
    by (simp add: concrete_defs)
  have fr: "oracle_fresh test_host (constructor (at_time alice 0)) []
     (disclosure_history @ later_history)"
    by (simp add: concrete_defs op_defs guard_defs)
  have re: "completed_ledger = run test_host (constructor (at_time alice 0)) disclosure_history"
    by (simp add: concrete_defs)
  have pr: "processed (decryptionContexts completed_ledger 7)"
    by (simp add: concrete_defs op_defs guard_defs slice_def)
  note inst = callback_at_most_once [OF h0 fr re, of 7 "[0, 0, 0, 9, 0, 0, 0, 0]" "[1]"]
  note first = inst [THEN conjunct1, rule_format, OF pr]
  from first [THEN conjunct1]
  have a: "myCallback test_host completed_ledger 7 [0, 0, 0, 9, 0, 0, 0, 0] [1] = Inl ReplayError" .
  from first [THEN conjunct2]
  have b: "processed (decryptionContexts (run test_host completed_ledger later_history) 7)" .
  from inst [THEN conjunct2, THEN conjunct2, THEN conjunct1] pr
  have c: "completions completed_ledger 7 = 1"
    by simp
  from inst [THEN conjunct2, THEN conjunct2, THEN conjunct2, THEN conjunct2]
  have d: "completions (run test_host completed_ledger later_history) 7 \<le> 1" .
  from h0 fr re pr a b c d show ?thesis
    by - (intro conjI; assumption)
qed

subsection \<open>Decoding the cleartexts\<close>

lemma shift_or_byte:
  fixes x :: uint32 and b :: "8 word"
  shows "push_bit 8 x OR ucast b = push_bit 8 x + ucast b"
proof (rule disjunctive_add_eq_or [symmetric])
  show "push_bit 8 x AND ucast b = 0"
    by (rule bit_word_eqI) (auto simp: bit_simps dest: bit_imp_le_length)
qed

lemma ucast_byte: "(ucast (b :: 8 word) :: uint32) = word_of_nat (unat b)"
  by simp

lemma uint32_of_bytes4_big_endian:
  "uint32_of_bytes4 [b0, b1, b2, b3] =
     word_of_nat (unat b0 * 16777216 + unat b1 * 65536 + unat b2 * 256 + unat b3)"
proof -
  have "uint32_of_bytes4 [b0, b1, b2, b3] =
      push_bit 8 (push_bit 8 (push_bit 8 (ucast b0) + ucast b1) + ucast b2) + ucast b3"
    by (simp add: uint32_of_bytes4_def shift_or_byte)
  also have "\<dots> = word_of_nat (unat b0 * 16777216 + unat b1 * 65536 + unat b2 * 256 + unat b3)"
    unfolding ucast_byte by (simp add: push_bit_eq_mult algebra_simps)
  finally show ?thesis .
qed

lemma eight_bytes:
  assumes "length (c :: bytes) = 8"
  shows "slice 0 4 c = [c ! 0, c ! 1, c ! 2, c ! 3]"
    and "slice 4 8 c = [c ! 4, c ! 5, c ! 6, c ! 7]"
proof -
  from assms obtain b0 b1 b2 b3 b4 b5 b6 b7 where "c = [b0, b1, b2, b3, b4, b5, b6, b7]"
    by (auto simp: eval_nat_numeral length_Suc_conv)
  then show "slice 0 4 c = [c ! 0, c ! 1, c ! 2, c ! 3]"
    and "slice 4 8 c = [c ! 4, c ! 5, c ! 6, c ! 7]"
    by (simp_all add: slice_def)
qed

text \<open>
  Claim C8, as amended. A callback with cleartexts of any length other than 8 bytes
  never goes through. When the request is not yet processed, the recomputed hash
  equals the stored one and the proof verifies, such a callback fails with
  \<open>InvalidDecryption\<close>, and one with exactly 8 bytes marks the request processed and
  appends the event \<open>DecryptionCompleted(requestId, batchId, totalDeposited,
  totalWithdrawn)\<close>, where \<open>batchId\<close> is the stored one, \<open>totalDeposited\<close> is bytes 0 to 3
  read as a big-endian number and \<open>totalWithdrawn\<close> is bytes 4 to 7 read the same way.
\<close>

theorem callback_decodes_cleartexts:
  "(length c \<noteq> 8 \<longrightarrow> (\<exists>err. myCallback h s r c p = Inl err)) \<and>
   (\<not> processed (decryptionContexts s r) \<and>
    hashCiphertexts h (callback_cts h) = stateHash (decryptionContexts s r) \<and>
    checkSignatures h r c p \<and> length c \<noteq> 8 \<longrightarrow>
      myCallback h s r c p = Inl InvalidDecryption) \<and>
   (\<not> processed (decryptionContexts s r) \<and>
    hashCiphertexts h (callback_cts h) = stateHash (decryptionContexts s r) \<and>
    checkSignatures h r c p \<and> length c = 8 \<longrightarrow>
      myCallback h s r c p =
        Inr (s\<lparr>decryptionContexts := (decryptionContexts s)
                 (r := (decryptionContexts s r)\<lparr>processed := True\<rparr>),
               events := events s @
                 [DecryptionCompleted r (batchId (decryptionContexts s r))
                    (word_of_nat (unat (c ! 0) * 16777216 + unat (c ! 1) * 65536 +
                                  unat (c ! 2) * 256 + unat (c ! 3)))
                    (word_of_nat (unat (c ! 4) * 16777216 + unat (c ! 5) * 65536 +
                                  unat (c ! 6) * 256 + unat (c ! 7)))]\<rparr>))"
proof (intro conjI impI)
  assume "length c \<noteq> 8"
  then show "\<exists>err. myCallback h s r c p = Inl err"
    by (simp add: myCallback_def Let_def)
next
  assume "\<not> processed (decryptionContexts s r) \<and>
    hashCiphertexts h (callback_cts h) = stateHash (decryptionContexts s r) \<and>
    checkSignatures h r c p \<and> length c \<noteq> 8"
  then show "myCallback h s r c p = Inl InvalidDecryption"
    by (simp add: myCallback_def Let_def)
next
  assume a: "\<not> processed (decryptionContexts s r) \<and>
    hashCiphertexts h (callback_cts h) = stateHash (decryptionContexts s r) \<and>
    checkSignatures h r c p \<and> length c = 8"
  then have len: "length c = 8" by simp
  from a show "myCallback h s r c p =
        Inr (s\<lparr>decryptionContexts := (decryptionContexts s)
                 (r := (decryptionContexts s r)\<lparr>processed := True\<rparr>),
               events := events s @
                 [DecryptionCompleted r (batchId (decryptionContexts s r))
                    (word_of_nat (unat (c ! 0) * 16777216 + unat (c ! 1) * 65536 +
                                  unat (c ! 2) * 256 + unat (c ! 3)))
                    (word_of_nat (unat (c ! 4) * 16777216 + unat (c ! 5) * 65536 +
                                  unat (c ! 6) * 256 + unat (c ! 7)))]\<rparr>)"
    by (simp only: myCallback_def Let_def eight_bytes [OF len] uint32_of_bytes4_big_endian
          emit_def)
       (simp add: a)
qed

theorem callback_decodes_cleartexts_witness:
  "\<not> processed (decryptionContexts requested_ledger 7) \<and>
   hashCiphertexts test_host (callback_cts test_host) =
     stateHash (decryptionContexts requested_ledger 7) \<and>
   checkSignatures test_host 7 [0, 0, 1, 3, 0, 0, 0, 2] [1] \<and>
   checkSignatures test_host 7 [0, 0, 1, 3] [1] \<and>
   myCallback test_host requested_ledger 7 [0, 0, 1, 3] [1] = Inl InvalidDecryption \<and>
   myCallback test_host requested_ledger 7 [0, 0, 1, 3, 0, 0, 0, 2] [1] =
     Inr (requested_ledger\<lparr>decryptionContexts := (decryptionContexts requested_ledger)
            (7 := (decryptionContexts requested_ledger 7)\<lparr>processed := True\<rparr>),
          events := events requested_ledger @ [DecryptionCompleted 7 1 259 2]\<rparr>)"
proof -
  have np: "\<not> processed (decryptionContexts requested_ledger 7)"
    and hs: "hashCiphertexts test_host (callback_cts test_host) =
      stateHash (decryptionContexts requested_ledger 7)"
    and bt: "batchId (decryptionContexts requested_ledger 7) = 1"
    by (simp_all add: concrete_defs op_defs guard_defs)
  have sg: "checkSignatures test_host 7 [0, 0, 1, 3, 0, 0, 0, 2] [1]"
    and sg': "checkSignatures test_host 7 [0, 0, 1, 3] [1]"
    by (simp_all add: test_host_def)
  have short: "\<not> processed (decryptionContexts requested_ledger 7) \<and>
      hashCiphertexts test_host (callback_cts test_host) =
        stateHash (decryptionContexts requested_ledger 7) \<and>
      checkSignatures test_host 7 [0, 0, 1, 3] [1] \<and> length [0 :: 8 word, 0, 1, 3] \<noteq> 8"
    using np hs sg' by simp
  have full: "\<not> processed (decryptionContexts requested_ledger 7) \<and>
      hashCiphertexts test_host (callback_cts test_host) =
        stateHash (decryptionContexts requested_ledger 7) \<and>
      checkSignatures test_host 7 [0, 0, 1, 3, 0, 0, 0, 2] [1] \<and>
      length [0 :: 8 word, 0, 1, 3, 0, 0, 0, 2] = 8"
    using np hs sg by simp
  from callback_decodes_cleartexts [of "[0, 0, 1, 3]" test_host requested_ledger 7 "[1]",
      THEN conjunct2, THEN conjunct1, rule_format, OF short]
  have a: "myCallback test_host requested_ledger 7 [0, 0, 1, 3] [1] = Inl InvalidDecryption" .
  from callback_decodes_cleartexts [of "[0, 0, 1, 3, 0, 0, 0, 2]" test_host requested_ledger 7
      "[1]", THEN conjunct2, THEN conjunct2, rule_format, OF full]
  have b: "myCallback test_host requested_ledger 7 [0, 0, 1, 3, 0, 0, 0, 2] [1] =
     Inr (requested_ledger\<lparr>decryptionContexts := (decryptionContexts requested_ledger)
            (7 := (decryptionContexts requested_ledger 7)\<lparr>processed := True\<rparr>),
          events := events requested_ledger @ [DecryptionCompleted 7 1 259 2]\<rparr>)"
    by (simp add: bt)
  from np hs sg sg' a b show ?thesis
    by - (intro conjI; assumption)
qed

text \<open>
  The claim as stated fails: the length of the cleartexts is the last thing the
  callback looks at. A callback with empty cleartexts for a request id that was never
  issued fails with \<open>StateMismatchError\<close>, and one for the pending request 7 with a
  proof that does not verify fails with \<open>InvalidProof\<close>.
\<close>

theorem short_cleartexts_other_error:
  "length ([] :: bytes) \<noteq> 8 \<and>
   myCallback test_host fresh_ledger 9 [] [1] = Inl StateMismatchError \<and>
   myCallback test_host requested_ledger 7 [] [0] = Inl InvalidProof"
  by (simp add: concrete_defs op_defs guard_defs)

end
